theory Spec2Isabelle
  imports
    Main
    "HOL-Library.Word"
    "HOL-Library.Product_Lexorder"
    "HOL-Library.List_Lexorder"
begin

section \<open>Data model\<close>

text \<open>
  The three function templates of the library are embedded over these types.
  \<^item> \<open>Code_\<close>, the integer type of the codes, is \<open>'c word\<close>: the \<open>LENGTH('c)\<close> bits of the value,
    in two's complement when the type is signed. A conversion from a wider type keeps the low
    bits. \<open>create_factor\<close> and \<open>combine_to_factor\<close> take the signedness of \<open>Code_\<close> as their
    first argument \<open>sg\<close> (true for a signed type). \<open>combine_to_factor_unused\<close>, which computes
    with the codes, is embedded for an unsigned \<open>Code_\<close>, whose arithmetic wraps around.
  \<^item> \<open>std::size_t\<close> values (\<open>n\<close>, container sizes, indices) are \<open>nat\<close>, and the largest
    one is \<open>size_max\<close>.
  \<^item> \<open>Input_\<close> is any linearly ordered type for \<open>create_factor\<close> and \<open>combine_to_factor\<close>,
    which only compare and copy the values. For \<open>combine_to_factor_unused\<close>, which converts
    between \<open>Input_\<close>, \<open>Number_\<close> and \<open>Code_\<close>, \<open>Input_\<close> is \<open>'i word\<close>, an unsigned integer of
    \<open>LENGTH('i)\<close> bits, and \<open>Number_\<close> is \<open>nat\<close>, an unsigned integer wide enough for every
    cardinality.
  \<^item> An array behind a pointer is a list; the array \<open>codes\<close> that the caller supplies is passed
    in and returned, so that what a failing call leaves in it is visible.
  \<^item> An exception (of the helpers of sanisizer, or \<open>std::length_error\<close> of \<open>std::vector\<close>) and
    an operation that C++ leaves undefined (a division by zero, an access outside an array)
    are values of \<open>error\<close>; a call returns the final \<open>codes\<close> array paired with either an
    error or the table of levels.
  \<^item> \<open>std::vector<Input_>::reserve\<close> and \<open>resize\<close> throw \<open>std::length_error\<close> for a size above
    \<open>max_size()\<close>, which the implementation defines: it is the first argument \<open>max_size\<close> of
    \<open>combine_to_factor_unused\<close>, the one function that sizes vectors by numbers the caller
    declares. The other vectors are no longer than arrays that the caller holds. Memory is
    taken to suffice: \<open>std::bad_alloc\<close> is not part of the model.
\<close>

datatype error = Overflow | LengthError | DivisionByZero | BufferOverrun

definition size_max :: nat where
  "size_max = 2 ^ 64 - 1"

subsection \<open>The sizing and arithmetic helpers of sanisizer\<close>

text \<open>
  Modelled from the spec: the header \<open>sanisizer/sanisizer.hpp\<close> is not part of the sources.
  The spec describes it as a checked-allocation primitive ("produce a container of exactly
  size S, fail cleanly if S cannot be represented or allocated") and a checked-arithmetic
  primitive ("compute a*b / cast a to type T, fail cleanly on overflow").
  \<open>as_size_type\<close> is the check that \<open>sanisizer::create\<close> and \<open>sanisizer::resize\<close> make on the
  requested size of a vector of levels or of columns: it has to fit the size type of the
  container, which is \<open>std::size_t\<close> for every \<open>std::vector\<close> here. A size that is
  representable is taken to be allocated, except where \<open>max_size\<close> stands in the way.
\<close>

definition as_size_type :: "nat \<Rightarrow> error + nat" where
  "as_size_type sz = (if sz \<le> size_max then Inr sz else Inl Overflow)"

text \<open>The largest value of \<open>Code_\<close>, for a signed (\<open>sg\<close>) or an unsigned type of
  \<open>LENGTH('c)\<close> bits.\<close>

definition code_max :: "'c::len itself \<Rightarrow> bool \<Rightarrow> nat" where
  "code_max t sg = (if sg then 2 ^ (LENGTH('c) - 1) - 1 else 2 ^ LENGTH('c) - 1)"

text \<open>
  Modelled from the spec: \<open>sanisizer::create<std::vector<Code_> >(nuniq)\<close>, the sizing of the
  remapping table in \<open>create_factor\<close> and \<open>combine_to_factor\<close>. The spec says of this step
  that "exhausting the representable range of the code type when the number of unique
  combinations exceeds it is a caller-observable failure (checked via the numeric-safety
  capability during remapping-table sizing)", and that "the code output type must be able
  to represent the final unique/combination count - violation is a checked failure, not
  undefined behavior". So the creation fails when \<open>nuniq\<close> is not a value of \<open>Code_\<close>, or not
  a value of the size type; otherwise it gives \<open>nuniq\<close> elements, all zero.
\<close>

definition create_remapping :: "bool \<Rightarrow> nat \<Rightarrow> error + 'c::len word list" where
  "create_remapping sg nuniq =
     (if nuniq \<le> code_max TYPE('c) sg \<and> nuniq \<le> size_max
      then Inr (replicate nuniq 0) else Inl Overflow)"

text \<open>
  Modelled from the spec: \<open>sanisizer::product<Code_>(a, b)\<close> with \<open>a\<close> a \<open>Code_\<close> and \<open>b\<close> a
  \<open>Number_\<close>; the product, or a failure when it is not representable in \<open>Code_\<close>.
\<close>

definition product :: "'c::len word \<Rightarrow> nat \<Rightarrow> error + 'c word" where
  "product a b =
     (if unat a * b < 2 ^ LENGTH('c) then Inr (of_nat (unat a * b)) else Inl Overflow)"

text \<open>
  Modelled from the spec: \<open>sanisizer::product_unsafe<Code_>(a, b)\<close>, the same product with no
  check, computed in \<open>Code_\<close>.
\<close>

definition product_unsafe :: "'c::len word \<Rightarrow> nat \<Rightarrow> 'c word" where
  "product_unsafe a b = a * of_nat b"

text \<open>
  Modelled from the spec: \<open>sanisizer::cast<std::size_t>(x)\<close> for a \<open>Code_\<close> value \<open>x\<close>.
\<close>

definition cast_size :: "'c::len word \<Rightarrow> error + nat" where
  "cast_size x = (if unat x \<le> size_max then Inr (unat x) else Inl Overflow)"

subsection \<open>Standard algorithms on arrays\<close>

text \<open>\<open>std::fill_n(codes, n, v)\<close>, and \<open>std::copy_n(src, n, codes)\<close> with the conversion of each
  element from \<open>Input_\<close> to \<open>Code_\<close>.\<close>

definition fill_n :: "'x list \<Rightarrow> nat \<Rightarrow> 'x \<Rightarrow> 'x list" where
  "fill_n codes n v = replicate n v @ drop n codes"

definition copy_n :: "'i::len word list \<Rightarrow> nat \<Rightarrow> 'c::len word list \<Rightarrow> 'c word list" where
  "copy_n src n codes = map (\<lambda>v. of_nat (unat v)) (take n src) @ drop n codes"

text \<open>\<open>std::iota(out.begin(), out.end(), static_cast<Code_>(0))\<close> on a vector of \<open>m\<close> elements
  of type \<open>Input_\<close>: the counter is a \<open>Code_\<close>, incremented in \<open>Code_\<close> and converted to
  \<open>Input_\<close> on each assignment.\<close>

fun iota :: "nat \<Rightarrow> 'c::len word \<Rightarrow> 'i::len word list" where
  "iota 0 v = []"
| "iota (Suc m) v = of_nat (unat v) # iota m (v + 1)"

text \<open>
  A \<open>Code_\<close> used as an index is converted to \<open>std::size_t\<close>: a negative value of a signed
  \<open>Code_\<close> (its top bit is set) becomes an index beyond the end of every array, any other
  value \<open>c\<close> is the index \<open>unat c\<close>. \<open>in_bounds sg sz c\<close> says that \<open>c\<close> indexes an array of
  \<open>sz\<close> elements.
\<close>

definition in_bounds :: "bool \<Rightarrow> nat \<Rightarrow> 'c::len word \<Rightarrow> bool" where
  "in_bounds sg sz c = (if sg \<and> 2 ^ (LENGTH('c) - 1) \<le> unat c then False else unat c < sz)"

section \<open>create_factor\<close>

text \<open>
  The \<open>std::unordered_map<Input_, Code_>\<close> is an association list with one entry per key.
  Its iteration order is unspecified in C++; here it is the order of insertion, and the
  \<open>std::sort\<close> that follows orders the pairs (by value, then by label) whatever it was.
\<close>

definition create_factor_scan ::
  "'a list \<Rightarrow> nat \<Rightarrow> ('a \<times> 'c::len word) list \<times> 'c word list
     \<Rightarrow> ('a \<times> 'c word) list \<times> 'c word list" where
  "create_factor_scan input i = (\<lambda>(mapping, codes).
     (let current = input ! i in
      case map_of mapping current of
        Some c \<Rightarrow> (mapping, codes[i := c])
      | None \<Rightarrow>
          (let alt = of_nat (length mapping)
           in (mapping @ [(current, alt)], codes[i := alt]))))"

text \<open>
  The conversions \<open>Code_ alt = mapping.size()\<close> and \<open>remapping[...] = u\<close> keep the low bits of
  the count. The keys of the map are distinct, so \<open>std::sort\<close> orders the pairs by their
  keys and never compares two labels: the order is the same for a signed \<open>Code_\<close> as for an
  unsigned one.

  The two vectors \<open>remapping\<close> and \<open>output\<close> are created with \<open>nuniq\<close> elements each;
  every slot of \<open>output\<close> is assigned in the loop over \<open>u\<close>, so its initial content does not
  appear. An index into \<open>remapping\<close> that is not below \<open>nuniq\<close>, in the loop over \<open>u\<close> or in
  the loop over \<open>i\<close>, is an access outside the array.
\<close>

definition create_factor ::
  "bool \<Rightarrow> nat \<Rightarrow> ('a::linorder) list \<Rightarrow> 'c::len word list \<Rightarrow> 'c word list \<times> (error + 'a list)" where
  "create_factor sg n input codes =
     (let (mapping, codes1) = fold (create_factor_scan input) [0..<n] ([], codes);
          unique = sort mapping;
          nuniq = length unique
      in case create_remapping sg nuniq of
           Inl e \<Rightarrow> (codes1, Inl e)
         | Inr remapping0 \<Rightarrow>
             (case as_size_type nuniq of
                Inl e \<Rightarrow> (codes1, Inl e)
              | Inr sz \<Rightarrow>
                  if list_all (\<lambda>e. in_bounds sg nuniq (snd e)) unique
                     \<and> list_all (\<lambda>i. in_bounds sg nuniq (codes1 ! i)) [0..<n]
                  then
                    (let remapping =
                           fold (\<lambda>u r. r[unat (snd (unique ! u)) := of_nat u]) [0..<nuniq]
                             remapping0;
                         output = map (\<lambda>u. fst (unique ! u)) [0..<nuniq];
                         codes2 =
                           fold (\<lambda>i cs. cs[i := remapping ! unat (cs ! i)]) [0..<n] codes1
                     in (codes2, Inr output))
                  else (codes1, Inl BufferOverrun)))"

section \<open>combine_to_factor\<close>

text \<open>The comparator \<open>cmp\<close> and the equality \<open>eq\<close> of the source, on observation indices.\<close>

fun cmp :: "('a::linorder) list list \<Rightarrow> nat \<Rightarrow> nat \<Rightarrow> bool" where
  "cmp [] left right = False"
| "cmp (curf # rest) left right =
     (if curf ! left < curf ! right then True
      else if curf ! left > curf ! right then False
      else cmp rest left right)"

fun eq_index :: "'a list list \<Rightarrow> nat \<Rightarrow> nat \<Rightarrow> bool" where
  "eq_index [] left right = True"
| "eq_index (curf # rest) left right =
     (if curf ! left \<noteq> curf ! right then False else eq_index rest left right)"

text \<open>
  The \<open>std::map\<close> with a custom comparator is the list of its entries in the order of the
  comparator. \<open>map_find\<close> returns the entry whose key is equivalent to the given one (neither
  is less than the other), \<open>map_insert\<close> places a new entry and leaves the map alone when an
  equivalent key is present.
\<close>

fun map_find :: "('k \<Rightarrow> 'k \<Rightarrow> bool) \<Rightarrow> ('k \<times> 'v) list \<Rightarrow> 'k \<Rightarrow> ('k \<times> 'v) option" where
  "map_find lt [] key = None"
| "map_find lt (e # es) key =
     (if lt (fst e) key then map_find lt es key
      else if lt key (fst e) then None
      else Some e)"

fun map_insert :: "('k \<Rightarrow> 'k \<Rightarrow> bool) \<Rightarrow> ('k \<times> 'v) list \<Rightarrow> 'k \<times> 'v \<Rightarrow> ('k \<times> 'v) list" where
  "map_insert lt [] kv = [kv]"
| "map_insert lt (e # es) kv =
     (if lt (fst e) (fst kv) then e # map_insert lt es kv
      else if lt (fst kv) (fst e) then kv # e # es
      else e # es)"

definition combine_scan ::
  "('a::linorder) list list \<Rightarrow> nat \<Rightarrow> (nat \<times> 'c::len word) list \<times> 'c word list
     \<Rightarrow> (nat \<times> 'c word) list \<times> 'c word list" where
  "combine_scan inputs i = (\<lambda>(mapping, codes).
     (let mIt = map_find (cmp inputs) mapping i;
          fresh = (case mIt of None \<Rightarrow> True | Some e \<Rightarrow> \<not> eq_index inputs (fst e) i)
      in if fresh then
           (let alt = of_nat (length mapping)
            in (map_insert (cmp inputs) mapping (i, alt), codes[i := alt]))
         else (mapping, codes[i := snd (the mIt)])))"

text \<open>One round of the loop over \<open>u\<close>: a \<open>push_back\<close> on every column and one entry of
  \<open>remapping\<close>.\<close>

definition combine_remap ::
  "'a list list \<Rightarrow> (nat \<times> 'c::len word) list \<Rightarrow> nat \<Rightarrow> 'a list list \<times> 'c word list
     \<Rightarrow> 'a list list \<times> 'c word list" where
  "combine_remap inputs unique u = (\<lambda>(output, remapping).
     (let ix = fst (unique ! u)
      in (map (\<lambda>f. output ! f @ [inputs ! f ! ix]) [0..<length inputs],
          remapping[unat (snd (unique ! u)) := of_nat u])))"

definition combine_to_factor ::
  "bool \<Rightarrow> nat \<Rightarrow> ('a::linorder) list list \<Rightarrow> 'c::len word list
     \<Rightarrow> 'c word list \<times> (error + 'a list list)" where
  "combine_to_factor sg n inputs codes =
     (let ninputs = length inputs
      in case as_size_type ninputs of
           Inl e \<Rightarrow> (codes, Inl e)
         | Inr nout \<Rightarrow>
             if ninputs = 0 then (fill_n codes n 0, Inr (replicate nout []))
             else if ninputs = 1 then
               (case create_factor sg n (hd inputs) codes of
                  (codes', Inl e) \<Rightarrow> (codes', Inl e)
                | (codes', Inr levels) \<Rightarrow> (codes', Inr ((replicate nout [])[0 := levels])))
             else
               (let (unique, codes1) = fold (combine_scan inputs) [0..<n] ([], codes);
                    nuniq = length unique
                in case create_remapping sg nuniq of
                     Inl e \<Rightarrow> (codes1, Inl e)
                   | Inr remapping0 \<Rightarrow>
                       if list_all (\<lambda>e. in_bounds sg nuniq (snd e)) unique
                          \<and> list_all (\<lambda>i. in_bounds sg nuniq (codes1 ! i)) [0..<n]
                       then
                         (let (output, remapping) =
                                fold (combine_remap inputs unique) [0..<nuniq]
                                  (replicate nout [], remapping0);
                              codes2 =
                                fold (\<lambda>i cs. cs[i := remapping ! unat (cs ! i)]) [0..<n] codes1
                          in (codes2, Inr output))
                       else (codes1, Inl BufferOverrun)))"

section \<open>combine_to_factor_unused\<close>

text \<open>
  The loop over \<open>f\<close> that computes the codes, from \<open>f = ninputs - 1\<close> down to \<open>1\<close>; the
  argument is \<open>f\<close>, and \<open>inputs[f - 1]\<close> is read. It returns the array \<open>codes\<close> and either the
  failure of the checked product or the final \<open>ncombos\<close>.
\<close>

fun code_loop ::
  "nat \<Rightarrow> ('i::len word list \<times> nat) list \<Rightarrow> nat \<Rightarrow> 'c::len word \<Rightarrow> 'c word list
     \<Rightarrow> 'c word list \<times> (error + 'c word)" where
  "code_loop n inputs 0 ncombos codes = (codes, Inr ncombos)"
| "code_loop n inputs (Suc f) ncombos codes =
     (let finfo = inputs ! f
      in case product ncombos (snd finfo) of
           Inl e \<Rightarrow> (codes, Inl e)
         | Inr next_ncombos \<Rightarrow>
             (let ff = fst finfo;
                  codes' = fold (\<lambda>i cs. cs[i := cs ! i + product_unsafe ncombos (unat (ff ! i))])
                             [0..<n] codes
              in code_loop n inputs f next_ncombos codes'))"

text \<open>
  The run-length blocks of one column: the vector was resized to \<open>sz\<close> elements, and
  \<open>std::fill_n\<close> writes \<open>inner_repeats\<close> copies of each level \<open>l < second\<close> from its start,
  converting the \<open>Number_\<close> \<open>l\<close> to \<open>Input_\<close>. Writing past the end of the vector is undefined
  in C++.
\<close>

definition fill_blocks :: "nat \<Rightarrow> nat \<Rightarrow> nat \<Rightarrow> error + 'i::len word list" where
  "fill_blocks sz inner_repeats second =
     (if inner_repeats * second \<le> sz
      then Inr (concat (map (\<lambda>l. replicate inner_repeats (of_nat l)) [0..<second])
                @ replicate (sz - inner_repeats * second) 0)
      else Inl BufferOverrun)"

text \<open>
  The loop over \<open>f\<close> that builds the table, from \<open>f = ninputs\<close> down to \<open>1\<close>. Each round
  reserves \<open>ncombos\<close> elements and resizes the column to \<open>initial_size\<close>; either throws
  \<open>std::length_error\<close> above \<open>max_size\<close>. The product \<open>inner_repeats * finfo.second\<close> is
  converted to \<open>Code_\<close>; the quotient \<open>outer_repeats / finfo.second\<close> is an integer division,
  undefined for a zero divisor.
\<close>

fun table_loop ::
  "nat \<Rightarrow> ('i::len word list \<times> nat) list \<Rightarrow> 'c::len word \<Rightarrow> nat \<Rightarrow> 'c word \<Rightarrow> 'c word
     \<Rightarrow> 'i word list list \<Rightarrow> error + 'i word list list" where
  "table_loop max_size inputs ncombos 0 outer_repeats inner_repeats output = Inr output"
| "table_loop max_size inputs ncombos (Suc f) outer_repeats inner_repeats output =
     (if max_size < unat ncombos then Inl LengthError
      else
        (let finfo = inputs ! f;
             initial_size = inner_repeats * of_nat (snd finfo)
         in if max_size < unat initial_size then Inl LengthError
            else
              (let filled =
                     (if inner_repeats = 1 then Inr (iota (unat initial_size) (0::'c word))
                      else fill_blocks (unat initial_size) (unat inner_repeats) (snd finfo))
               in case filled of
                    Inl e \<Rightarrow> Inl e
                  | Inr out0 \<Rightarrow>
                      if snd finfo = 0 then Inl DivisionByZero
                      else
                        (let outer' = (of_nat (unat outer_repeats div snd finfo) :: 'c word);
                             out = fold (\<lambda>r out. out @ take (unat initial_size) out)
                                     [1..<unat outer'] out0
                         in table_loop max_size inputs ncombos f outer' initial_size
                              (output[f := out])))))"

text \<open>
  The function. With one variable, \<open>sanisizer::resize\<close> checks the cardinality against the
  size type and resizes the column, which throws \<open>std::length_error\<close> above \<open>max_size\<close>.
\<close>

definition combine_to_factor_unused ::
  "nat \<Rightarrow> nat \<Rightarrow> ('i::len word list \<times> nat) list \<Rightarrow> 'c::len word list
     \<Rightarrow> 'c word list \<times> (error + 'i word list list)" where
  "combine_to_factor_unused max_size n inputs codes =
     (let ninputs = length inputs
      in case as_size_type ninputs of
           Inl e \<Rightarrow> (codes, Inl e)
         | Inr nout \<Rightarrow>
             if ninputs = 0 then (fill_n codes n 0, Inr (replicate nout []))
             else if ninputs = 1 then
               (case as_size_type (snd (inputs ! 0)) of
                  Inl e \<Rightarrow> (codes, Inl e)
                | Inr sz \<Rightarrow>
                    if max_size < sz then (codes, Inl LengthError)
                    else
                      (copy_n (fst (inputs ! 0)) n codes,
                       Inr ((replicate nout [])[0 := iota sz (0::'c word)])))
             else
               (let codes0 = copy_n (fst (inputs ! (ninputs - 1))) n codes;
                    ncombos0 = (of_nat (snd (inputs ! (ninputs - 1))) :: 'c word)
                in case code_loop n inputs (ninputs - 1) ncombos0 codes0 of
                     (codes', Inl e) \<Rightarrow> (codes', Inl e)
                   | (codes', Inr ncombos) \<Rightarrow>
                       (case cast_size ncombos of
                          Inl e \<Rightarrow> (codes', Inl e)
                        | Inr _ \<Rightarrow>
                            (codes',
                             table_loop max_size inputs ncombos ninputs ncombos 1
                               (replicate nout [])))))"

section \<open>Notions used in the statements\<close>

text \<open>
  The mixed-radix value of a tuple of digits, given as pairs of a digit and its radix, most
  significant first: each digit counts the product of the radices after it.
\<close>

fun mixed_radix :: "(nat \<times> nat) list \<Rightarrow> nat" where
  "mixed_radix [] = 0"
| "mixed_radix ((v, c) # rest) = v * prod_list (map snd rest) + mixed_radix rest"

text \<open>The raw values of observation \<open>i\<close>, each with the cardinality of its variable.\<close>

definition digits_at :: "('i::len word list \<times> nat) list \<Rightarrow> nat \<Rightarrow> (nat \<times> nat) list" where
  "digits_at inputs i = map (\<lambda>(vals, c). (unat (vals ! i), c)) inputs"

text \<open>
  The rows of a table: row \<open>j\<close> collects entry \<open>j\<close> of every column, and there are as many
  rows as the first column is long. A table with no column has no row.
\<close>

definition table_rows :: "'a list list \<Rightarrow> 'a list list" where
  "table_rows table =
     (case table of [] \<Rightarrow> [] | col # _ \<Rightarrow> map (\<lambda>j. map (\<lambda>c. c ! j) table) [0..<length col])"

text \<open>
  Column \<open>f\<close> and row \<open>j\<close> of the Cartesian product of the ranges \<open>[0, c)\<close> for the
  cardinalities \<open>cs\<close>, enumerated with the first variable varying slowest.
\<close>

definition cartesian_column :: "nat list \<Rightarrow> nat \<Rightarrow> nat list" where
  "cartesian_column cs f =
     map (\<lambda>j. (j div prod_list (drop (Suc f) cs)) mod (cs ! f)) [0..<prod_list cs]"

definition cartesian_row :: "nat list \<Rightarrow> nat \<Rightarrow> nat list" where
  "cartesian_row cs j =
     map (\<lambda>f. (j div prod_list (drop (Suc f) cs)) mod (cs ! f)) [0..<length cs]"

text \<open>
  The range conditions on the unchecked arithmetic of \<open>combine_to_factor_unused\<close>, stated
  along the two loops. In round \<open>f\<close> of the code loop: the unchecked product and the
  addition into \<open>codes[i]\<close> do not exceed the range of \<open>Code_\<close>, and afterwards
  \<open>codes[i]\<close> is below the new \<open>ncombos\<close>. In round \<open>f\<close> of the table loop:
  \<open>inner_repeats * finfo.second\<close> is at most the total that was checked.
\<close>

fun code_loop_in_range ::
  "nat \<Rightarrow> ('i::len word list \<times> nat) list \<Rightarrow> nat \<Rightarrow> 'c::len word \<Rightarrow> 'c word list \<Rightarrow> bool" where
  "code_loop_in_range n inputs 0 ncombos codes = True"
| "code_loop_in_range n inputs (Suc f) ncombos codes =
     (let finfo = inputs ! f
      in case product ncombos (snd finfo) of
           Inl e \<Rightarrow> True
         | Inr next_ncombos \<Rightarrow>
             (let ff = fst finfo;
                  codes' = fold (\<lambda>i cs. cs[i := cs ! i + product_unsafe ncombos (unat (ff ! i))])
                             [0..<n] codes
              in list_all (\<lambda>i. unat ncombos * unat (ff ! i) < 2 ^ LENGTH('c)
                               \<and> unat (codes ! i) + unat ncombos * unat (ff ! i) < 2 ^ LENGTH('c)
                               \<and> unat (codes' ! i) < unat next_ncombos) [0..<n]
                 \<and> code_loop_in_range n inputs f next_ncombos codes'))"

fun table_loop_in_range ::
  "('i::len word list \<times> nat) list \<Rightarrow> nat \<Rightarrow> 'c::len word \<Rightarrow> 'c word \<Rightarrow> nat \<Rightarrow> bool" where
  "table_loop_in_range inputs 0 outer_repeats inner_repeats ntotal = True"
| "table_loop_in_range inputs (Suc f) outer_repeats inner_repeats ntotal =
     (let finfo = inputs ! f;
          initial_size = inner_repeats * of_nat (snd finfo)
      in unat inner_repeats * snd finfo \<le> ntotal
         \<and> (if snd finfo = 0 then True
            else table_loop_in_range inputs f
                   (of_nat (unat outer_repeats div snd finfo)) initial_size ntotal))"

definition unused_in_range ::
  "nat \<Rightarrow> ('i::len word list \<times> nat) list \<Rightarrow> 'c::len word list \<Rightarrow> bool" where
  "unused_in_range n inputs codes =
     (let ninputs = length inputs;
          codes0 = copy_n (fst (inputs ! (ninputs - 1))) n codes;
          ncombos0 = (of_nat (snd (inputs ! (ninputs - 1))) :: 'c word)
      in list_all (\<lambda>i. unat (codes0 ! i) < unat ncombos0) [0..<n]
         \<and> code_loop_in_range n inputs (ninputs - 1) ncombos0 codes0
         \<and> (case code_loop n inputs (ninputs - 1) ncombos0 codes0 of
              (codes', Inl e) \<Rightarrow> True
            | (codes', Inr ncombos) \<Rightarrow>
                (case cast_size ncombos of
                   Inl e \<Rightarrow> True
                 | Inr ntotal \<Rightarrow> table_loop_in_range inputs ninputs ncombos 1 ntotal)))"

text \<open>The tuple of observation \<open>i\<close>: entry \<open>i\<close> of every variable.\<close>

definition observation :: "'a list list \<Rightarrow> nat \<Rightarrow> 'a list" where
  "observation inputs i = map (\<lambda>col. col ! i) inputs"

subsection \<open>Loop invariants\<close>

text \<open>
  After the first \<open>m\<close> rounds of the scan of \<open>create_factor\<close>: the labels are the positions
  in the order of insertion, every value seen has one entry, and the provisional code of an
  observation is the label of its value.
\<close>

definition scan_inv :: "'a list \<Rightarrow> nat \<Rightarrow> ('a \<times> 'c::len word) list \<times> 'c word list \<Rightarrow> bool" where
  "scan_inv input m = (\<lambda>(mapping, codes).
     map snd mapping = map of_nat [0..<length mapping]
     \<and> distinct (map fst mapping)
     \<and> set (map fst mapping) = set (take m input)
     \<and> (\<forall>j<m. map_of mapping (input ! j) = Some (codes ! j)))"

text \<open>
  After the first \<open>m\<close> rounds of the scan of \<open>combine_to_factor\<close>: the map is in the
  strict order of the tuples of its keys, its labels are those of some order of insertion,
  every observation seen has an entry with its tuple and its provisional code, and every key
  is an observation seen.
\<close>

definition combine_inv ::
  "('a::linorder) list list \<Rightarrow> nat \<Rightarrow> (nat \<times> 'c::len word) list \<times> 'c word list \<Rightarrow> bool" where
  "combine_inv inputs m = (\<lambda>(mapping, codes).
     sorted_wrt (\<lambda>a b. observation inputs (fst a) < observation inputs (fst b)) mapping
     \<and> (\<exists>ps. set ps = set mapping \<and> length ps = length mapping
              \<and> map snd ps = map of_nat [0..<length ps])
     \<and> (\<forall>j<m. \<exists>e \<in> set mapping.
            observation inputs (fst e) = observation inputs j \<and> snd e = codes ! j)
     \<and> (\<forall>e \<in> set mapping. fst e < m))"

section \<open>Auxiliary facts\<close>

lemma fold_update_map:
  "m \<le> length cs \<Longrightarrow>
   fold (\<lambda>i cs. cs[i := g i (cs ! i)]) [0..<m] cs = map (\<lambda>i. g i (cs ! i)) [0..<m] @ drop m cs"
proof (induction m)
  case 0
  then show ?case by simp
next
  case (Suc m)
  then have m: "m < length cs" by simp
  let ?A = "map (\<lambda>i. g i (cs ! i)) [0..<m]"
  have d: "drop m cs = cs ! m # drop (Suc m) cs"
    using m by (simp add: Cons_nth_drop_Suc)
  have "fold (\<lambda>i cs. cs[i := g i (cs ! i)]) [0..<Suc m] cs
        = (?A @ drop m cs)[m := g m ((?A @ drop m cs) ! m)]"
    using Suc by simp
  also have "(?A @ drop m cs) ! m = cs ! m"
    using m by (simp add: nth_append)
  also have "(?A @ drop m cs)[m := g m (cs ! m)] = ?A @ g m (cs ! m) # drop (Suc m) cs"
    by (simp add: list_update_append d)
  finally show ?case by simp
qed

lemma fold_update_nth:
  "length cs = n \<Longrightarrow> i < n \<Longrightarrow>
   fold (\<lambda>i cs. cs[i := g i (cs ! i)]) [0..<n] cs ! i = g i (cs ! i)"
  by (simp add: fold_update_map)

lemma fold_update_length:
  "length (fold (\<lambda>i cs. cs[i := h i cs]) xs cs) = length cs"
  by (induction xs arbitrary: cs) auto

lemma unat_of_nat_small: "m < 2 ^ LENGTH('c) \<Longrightarrow> unat (of_nat m :: 'c::len word) = m"
  by (simp add: unat_of_nat)

lemma mixed_radix_less:
  "\<forall>(v, c) \<in> set ds. v < c \<Longrightarrow> mixed_radix ds < prod_list (map snd ds)"
proof (induction ds)
  case Nil
  then show ?case by simp
next
  case (Cons d ds)
  obtain v c where d: "d = (v, c)" by (cases d)
  let ?P = "prod_list (map snd ds)"
  have "mixed_radix ds < ?P" using Cons by simp
  moreover have "v < c" using Cons.prems d by simp
  then have "Suc v * ?P \<le> c * ?P" by (intro mult_le_mono1) simp
  ultimately show ?case using d by simp
qed

lemma prod_list_take_drop:
  "prod_list (map snd (take f xs)) * prod_list (map snd (drop f xs)) = prod_list (map snd xs)"
proof -
  have "prod_list (map snd (take f xs @ drop f xs)) = prod_list (map snd xs)" by simp
  then show ?thesis unfolding map_append prod_list.append .
qed

lemma prod_list_pos: "\<forall>c \<in> set cs. 0 < c \<Longrightarrow> 0 < prod_list (cs :: nat list)"
  by (induction cs) auto

lemma prod_list_drop_le:
  assumes "\<forall>c \<in> set (map snd xs). 0 < (c::nat)"
  shows "prod_list (map snd (drop f xs)) \<le> prod_list (map snd xs)"
proof -
  have "\<forall>c \<in> set (map snd (take f xs)). 0 < c"
    using assms by (auto dest: in_set_takeD)
  then have "0 < prod_list (map snd (take f xs))" by (rule prod_list_pos)
  then have "1 * prod_list (map snd (drop f xs))
             \<le> prod_list (map snd (take f xs)) * prod_list (map snd (drop f xs))"
    by (intro mult_le_mono1) simp
  then show ?thesis by (simp add: prod_list_take_drop)
qed

lemma drop_Suc_step: "f < length xs \<Longrightarrow> drop f xs = xs ! f # drop (Suc f) xs"
  by (simp add: Cons_nth_drop_Suc)

lemma code_loop_length: "length (fst (code_loop n inputs f ncombos codes)) = length codes"
  by (induction f arbitrary: ncombos codes)
     (auto simp: Let_def fold_update_length split: sum.splits)

lemma code_loop_error:
  "code_loop n inputs f ncombos codes = (cs, Inl e) \<Longrightarrow> e = Overflow"
  by (induction f arbitrary: ncombos codes)
     (auto simp: Let_def product_def split: sum.splits if_splits)

lemma product_Inr:
  fixes a :: "'c::len word"
  assumes "product a b = Inr nx"
  shows "unat nx = unat a * b" and "unat a * b < 2 ^ LENGTH('c)"
proof -
  show lt: "unat a * b < 2 ^ LENGTH('c)"
    using assms by (auto simp: product_def split: if_splits)
  have "product a b = Inr (of_nat (unat a * b))"
    unfolding product_def using lt by (rule if_P)
  then have "nx = of_nat (unat a * b)"
    using assms by (simp only: sum.inject)
  then show "unat nx = unat a * b"
    using lt by (simp only: unat_of_nat_small)
qed

lemma product_ok:
  "unat a * b < 2 ^ LENGTH('c) \<Longrightarrow> product a b = Inr (of_nat (unat a * b))"
  for a :: "'c::len word"
  by (simp add: product_def)

lemma product_Inl: "product a b = Inl e \<Longrightarrow> e = Overflow"
  by (simp add: product_def split: if_splits)

lemma code_loop_result:
  "code_loop n inputs f ncombos codes = (cs, Inr nc) \<Longrightarrow> f \<le> length inputs \<Longrightarrow>
   unat nc = prod_list (map snd (take f inputs)) * unat ncombos"
proof (induction f arbitrary: ncombos codes)
  case 0
  then show ?case by simp
next
  case (Suc f)
  let ?c = "snd (inputs ! f)"
  from Suc.prems obtain nx where nx: "product ncombos ?c = Inr nx"
    by (auto simp: Let_def split: sum.splits)
  then have un: "unat nx = unat ncombos * ?c"
    by (rule product_Inr)
  from Suc.prems nx obtain codes' where "code_loop n inputs f nx codes' = (cs, Inr nc)"
    by (auto simp: Let_def)
  then have "unat nc = prod_list (map snd (take f inputs)) * unat nx"
    using Suc.IH Suc.prems by simp
  moreover have "take (Suc f) inputs = take f inputs @ [inputs ! f]"
    using Suc.prems by (simp add: take_Suc_conv_app_nth)
  ultimately show ?case using un by (simp add: mult.assoc mult.commute)
qed

lemma word_of_unat: "unat x = m \<Longrightarrow> x = of_nat m"
  by auto

lemma code_step_unat:
  fixes ncombos c0 :: "'c::len word"
  assumes "unat c0 = m" "unat ncombos = P" "v * P + m < 2 ^ LENGTH('c)"
  shows "unat (c0 + product_unsafe ncombos v) = v * P + m"
proof -
  have "c0 = of_nat m" "ncombos = of_nat P"
    using assms(1,2) by (auto dest: word_of_unat)
  then have "c0 + product_unsafe ncombos v = of_nat (v * P + m)"
    by (simp add: product_unsafe_def)
  then show ?thesis
    using assms(3) by (simp only: unat_of_nat_small)
qed

lemma code_loop_ncombos:
  fixes ncombos :: "'c::len word"
  assumes "f \<le> length inputs"
    and "\<forall>c \<in> set (map snd inputs). 0 < c"
    and "prod_list (map snd inputs) < 2 ^ LENGTH('c)"
    and "unat ncombos = prod_list (map snd (drop f inputs))"
  shows "snd (code_loop n inputs f ncombos codes) = Inr (of_nat (prod_list (map snd inputs)))"
  using assms
proof (induction f arbitrary: ncombos codes)
  case 0
  then have "ncombos = of_nat (prod_list (map snd inputs))"
    by (auto dest: word_of_unat)
  then show ?case by simp
next
  case (Suc f)
  let ?c = "snd (inputs ! f)"
  have f: "f < length inputs" using Suc.prems by simp
  have dr: "drop f inputs = inputs ! f # drop (Suc f) inputs"
    using f by (rule drop_Suc_step)
  have P: "unat ncombos * ?c = prod_list (map snd (drop f inputs))"
    using Suc.prems(4) dr by (simp add: mult.commute)
  also have "\<dots> \<le> prod_list (map snd inputs)"
    using Suc.prems(2) by (rule prod_list_drop_le)
  finally have lt: "unat ncombos * ?c < 2 ^ LENGTH('c)"
    using Suc.prems(3) by simp
  then have pr: "product ncombos ?c = Inr (of_nat (unat ncombos * ?c))"
    by (rule product_ok)
  have "unat (of_nat (unat ncombos * ?c) :: 'c word) = prod_list (map snd (drop f inputs))"
    using lt P by (simp only: unat_of_nat_small)
  then show ?case
    using Suc.IH [of "of_nat (unat ncombos * ?c)"] Suc.prems(2,3) f
    by (simp only: code_loop.simps Let_def pr sum.case)
qed

lemma code_loop_codes:
  fixes ncombos :: "'c::len word"
  assumes "f \<le> length inputs" and "length codes = n"
    and "\<forall>c \<in> set (map snd inputs). 0 < c"
    and "prod_list (map snd inputs) < 2 ^ LENGTH('c)"
    and "unat ncombos = prod_list (map snd (drop f inputs))"
    and "\<forall>i<n. \<forall>(vals, c) \<in> set inputs. unat (vals ! i) < c"
    and "\<forall>i<n. unat (codes ! i) = mixed_radix (drop f (digits_at inputs i))"
  shows "\<forall>i<n. unat (fst (code_loop n inputs f ncombos codes) ! i)
                 = mixed_radix (digits_at inputs i)"
  using assms
proof (induction f arbitrary: ncombos codes)
  case 0
  then show ?case by simp
next
  case (Suc f)
  let ?c = "snd (inputs ! f)"
  let ?ff = "fst (inputs ! f)"
  let ?codes' = "fold (\<lambda>i cs. cs[i := cs ! i + product_unsafe ncombos (unat (?ff ! i))])
                   [0..<n] codes"
  have f: "f < length inputs" using Suc.prems by simp
  have dr: "drop f inputs = inputs ! f # drop (Suc f) inputs"
    using f by (rule drop_Suc_step)
  have P: "unat ncombos * ?c = prod_list (map snd (drop f inputs))"
    using Suc.prems(5) dr by (simp add: mult.commute)
  also have "\<dots> \<le> prod_list (map snd inputs)"
    using Suc.prems(3) by (rule prod_list_drop_le)
  finally have lt: "unat ncombos * ?c < 2 ^ LENGTH('c)"
    using Suc.prems(4) by simp
  then have pr: "product ncombos ?c = Inr (of_nat (unat ncombos * ?c))"
    by (rule product_ok)
  have nx: "unat (of_nat (unat ncombos * ?c) :: 'c word) = prod_list (map snd (drop f inputs))"
    using lt P by (simp only: unat_of_nat_small)
  have len: "length ?codes' = n"
    using Suc.prems(2) by (simp add: fold_update_length)
  have step: "unat (?codes' ! i) = mixed_radix (drop f (digits_at inputs i))" if i: "i < n" for i
  proof -
    have nth: "?codes' ! i = codes ! i + product_unsafe ncombos (unat (?ff ! i))"
      using fold_update_nth [where g = "\<lambda>i x. x + product_unsafe ncombos (unat (?ff ! i))"]
        Suc.prems(2) i by simp
    have dd: "drop f (digits_at inputs i)
              = (unat (?ff ! i), ?c) # drop (Suc f) (digits_at inputs i)"
      using f by (simp add: digits_at_def drop_Suc_step [of f] case_prod_beta flip: drop_map)
    have sn: "map snd (drop (Suc f) (digits_at inputs i)) = map snd (drop (Suc f) inputs)"
      by (simp add: digits_at_def case_prod_beta comp_def flip: drop_map)
    have "\<forall>(v, c) \<in> set (digits_at inputs i). v < c"
      using Suc.prems(6) i by (auto simp: digits_at_def)
    then have "\<forall>(v, c) \<in> set (drop f (digits_at inputs i)). v < c"
      by (auto dest: in_set_dropD)
    then have "mixed_radix (drop f (digits_at inputs i))
               < prod_list (map snd (drop f (digits_at inputs i)))"
      by (rule mixed_radix_less)
    also have "\<dots> = prod_list (map snd (drop f inputs))"
      by (simp add: digits_at_def case_prod_beta comp_def flip: drop_map)
    also have "\<dots> < 2 ^ LENGTH('c)" using P lt by simp
    finally have b: "unat (?ff ! i) * unat ncombos + unat (codes ! i) < 2 ^ LENGTH('c)"
      using dd sn Suc.prems(5,7) i by simp
    have "unat (codes ! i + product_unsafe ncombos (unat (?ff ! i)))
          = unat (?ff ! i) * unat ncombos + unat (codes ! i)"
      using b by (intro code_step_unat) simp_all
    then show ?thesis
      using nth dd sn Suc.prems(5,7) i by simp
  qed
  have "\<forall>i<n. unat (fst (code_loop n inputs f (of_nat (unat ncombos * ?c)) ?codes') ! i)
                = mixed_radix (digits_at inputs i)"
    using Suc.prems(3,4,6) f len nx step by (intro Suc.IH) simp_all
  then show ?case
    by (simp only: code_loop.simps Let_def pr sum.case)
qed

lemma map_upt_shift: "map f [a..<a + L] = map (\<lambda>r. f (a + r)) [0..<L]"
proof -
  have "[a..<a + L] = map (\<lambda>r. r + a) [0..<L]"
    by (simp add: map_add_upt add.commute)
  then show ?thesis by (simp add: comp_def add.commute)
qed

lemma concat_blocks:
  "concat (map (\<lambda>x. map (h x) [0..<L]) [0..<c])
   = map (\<lambda>j. h (j div L) (j mod L)) [0..<c * L]"
proof (induction c)
  case 0
  then show ?case by simp
next
  case (Suc c)
  have "[0..<c * L + L] = [0..<c * L] @ [c * L..<c * L + L]"
    by (rule upt_add_eq_append) simp
  moreover have "map (\<lambda>j. h (j div L) (j mod L)) [c * L..<c * L + L]
                 = map (\<lambda>r. h ((c * L + r) div L) ((c * L + r) mod L)) [0..<L]"
    by (rule map_upt_shift)
  moreover have "map (\<lambda>r. h ((c * L + r) div L) ((c * L + r) mod L)) [0..<L] = map (h c) [0..<L]"
    by (rule map_cong) auto
  moreover have "Suc c * L = c * L + L" by simp
  ultimately have "map (\<lambda>j. h (j div L) (j mod L)) [0..<Suc c * L]
                   = map (\<lambda>j. h (j div L) (j mod L)) [0..<c * L] @ map (h c) [0..<L]"
    by (simp only: map_append)
  then show ?case using Suc.IH by simp
qed

lemma fill_cycle:
  "concat (map (replicate inner) [0..<c]) = map (\<lambda>j. j div inner) [0..<c * inner]"
  using concat_blocks [of "\<lambda>x r. x" inner c] by (simp add: map_replicate_trivial)

lemma repeat_cycle:
  "concat (replicate m (map g [0..<L])) = map (\<lambda>j. g (j mod L)) [0..<m * L]"
proof -
  have "replicate m (map g [0..<L]) = map (\<lambda>x. map g [0..<L]) [0..<m]"
    by (simp add: map_replicate_trivial)
  then show ?thesis
    using concat_blocks [of "\<lambda>x. g" L m] by simp
qed

lemma concat_replicate_snoc: "concat (replicate k xs) @ xs = concat (replicate (Suc k) xs)"
  by (induction k) auto

lemma insert_loop:
  "length out0 = L \<Longrightarrow>
   fold (\<lambda>r out. out @ take L out) rs out0 = concat (replicate (Suc (length rs)) out0)"
proof (induction rs rule: rev_induct)
  case Nil
  then show ?case by simp
next
  case (snoc r rs)
  have "take L (concat (replicate (Suc (length rs)) out0)) = out0"
    using snoc.prems by simp
  then have "fold (\<lambda>r out. out @ take L out) (rs @ [r]) out0
             = concat (replicate (Suc (length rs)) out0) @ out0"
    using snoc by simp
  then show ?case
    by (simp only: concat_replicate_snoc length_append_singleton)
qed

lemma iota_upt:
  "unat v + m \<le> 2 ^ LENGTH('c) \<Longrightarrow>
   (iota m (v::'c::len word) :: 'i::len word list) = map of_nat [unat v..<unat v + m]"
proof (induction m arbitrary: v)
  case 0
  then show ?case by simp
next
  case (Suc m)
  show ?case
  proof (cases m)
    case 0
    then show ?thesis by simp
  next
    case (Suc m')
    then have "unat v + 1 < 2 ^ LENGTH('c)" using Suc.prems by simp
    then have u: "unat (v + 1) = Suc (unat v)"
      by (metis Suc_eq_plus1 unat_1 unat_add_lem)
    then have "unat (v + 1) + m \<le> 2 ^ LENGTH('c)" using Suc.prems by simp
    then have "(iota m (v + 1) :: 'i word list) = map of_nat [unat (v + 1)..<unat (v + 1) + m]"
      by (rule Suc.IH)
    then have "(iota m (v + 1) :: 'i word list) = map of_nat [Suc (unat v)..<Suc (unat v) + m]"
      by (simp only: u)
    moreover have "[unat v..<Suc (unat v + m)] = unat v # [Suc (unat v)..<Suc (unat v + m)]"
      by (rule upt_conv_Cons) simp
    ultimately show ?thesis by (simp only: iota.simps list.map add_Suc_right add_Suc)
  qed
qed

lemma div_mod_mixed: "(j mod (s * c)) div s = (j div s) mod (c::nat)"
proof (cases "s = 0")
  case True
  then show ?thesis by simp
next
  case False
  then show ?thesis by (simp add: mod_mult2_eq)
qed

lemma prod_list_split_nth:
  "f < length cs \<Longrightarrow>
   prod_list (take f cs) * (prod_list (drop (Suc f) cs) * cs ! f) = prod_list (cs::nat list)"
proof -
  assume "f < length cs"
  then have "cs = take f cs @ cs ! f # drop (Suc f) cs" by (rule id_take_nth_drop)
  then have "prod_list cs = prod_list (take f cs @ cs ! f # drop (Suc f) cs)" by simp
  then show ?thesis by (simp add: mult.commute)
qed

lemma table_column:
  assumes "f < length cs"
  shows "concat (replicate (prod_list (take f cs))
           (concat (map (replicate (prod_list (drop (Suc f) cs))) [0..<cs ! f])))
         = cartesian_column cs f"
proof -
  let ?s = "prod_list (drop (Suc f) cs)"
  let ?c = "cs ! f"
  let ?m = "prod_list (take f cs)"
  have "concat (map (replicate ?s) [0..<?c]) = map (\<lambda>j. j div ?s) [0..<?c * ?s]"
    by (rule fill_cycle)
  then have "concat (replicate ?m (concat (map (replicate ?s) [0..<?c])))
             = map (\<lambda>j. (j mod (?c * ?s)) div ?s) [0..<?m * (?c * ?s)]"
    by (simp only: repeat_cycle)
  also have "\<dots> = map (\<lambda>j. (j div ?s) mod ?c) [0..<?m * (?s * ?c)]"
    by (simp only: mult.commute [of ?c ?s] div_mod_mixed)
  also have "?m * (?s * ?c) = prod_list cs"
    using assms by (rule prod_list_split_nth)
  finally show ?thesis by (simp only: cartesian_column_def)
qed

lemma concat_singletons: "concat (map (replicate (Suc 0)) xs) = xs"
  by (induction xs) auto

lemma map_of_nat_blocks:
  "concat (map (\<lambda>l. replicate m (of_nat l)) xs) = map of_nat (concat (map (replicate m) xs))"
  by (induction xs) auto

lemma table_loop_columns:
  fixes outer inner ncombos :: "'c::len word" and inputs :: "('i::len word list \<times> nat) list"
  assumes "f \<le> length inputs" and "length outp = length inputs"
    and "\<forall>c \<in> set (map snd inputs). 0 < c"
    and "prod_list (map snd inputs) < 2 ^ LENGTH('c)"
    and "unat outer = prod_list (map snd (take f inputs))"
    and "unat inner = prod_list (map snd (drop f inputs))"
    and "unat ncombos \<le> max_size" and "prod_list (map snd inputs) \<le> max_size"
  shows "table_loop max_size inputs ncombos f outer inner outp
         = Inr (map (\<lambda>g. if g < f then map of_nat (cartesian_column (map snd inputs) g)
                           else outp ! g)
                  [0..<length inputs])"
  using assms
proof (induction f arbitrary: outer inner outp)
  case 0
  have "map ((!) outp) [0..<length outp] = outp" by (rule map_nth)
  then show ?case using "0.prems"(2) by simp
next
  case (Suc f)
  let ?cs = "map snd inputs"
  let ?c = "snd (inputs ! f)"
  let ?isz = "inner * of_nat ?c"
  let ?cycle = "concat (map (replicate (unat inner)) [0..<?c])"
  let ?wcycle = "map of_nat ?cycle :: 'i word list"
  let ?m = "prod_list (map snd (take f inputs))"
  have f: "f < length inputs" using Suc.prems by simp
  have cpos: "0 < ?c" using Suc.prems(3) f by simp
  have dr: "drop f inputs = inputs ! f # drop (Suc f) inputs"
    using f by (rule drop_Suc_step)
  have "unat inner * ?c = prod_list (map snd (drop f inputs))"
    using Suc.prems(6) dr by (simp add: mult.commute)
  also have "\<dots> \<le> prod_list ?cs"
    using Suc.prems(3) by (rule prod_list_drop_le)
  finally have le: "unat inner * ?c \<le> prod_list ?cs" .
  then have lt: "unat inner * ?c < 2 ^ LENGTH('c)"
    using Suc.prems(4) by simp
  have "?isz = of_nat (unat inner * ?c)" by simp
  then have isz: "unat ?isz = unat inner * ?c"
    using lt by (simp only: unat_of_nat_small)
  have isz': "unat ?isz = prod_list (map snd (drop f inputs))"
    using isz Suc.prems(6) dr by (simp add: mult.commute)
  have res: "\<not> max_size < unat ncombos" using Suc.prems(7) by simp
  have rsz: "\<not> max_size < unat ?isz" using isz le Suc.prems(8) by simp
  have filled: "(if inner = 1 then Inr (iota (unat ?isz) (0::'c word))
                 else fill_blocks (unat ?isz) (unat inner) ?c) = Inr ?wcycle"
  proof (cases "inner = 1")
    case True
    have "iota ?c (0::'c word) = (map of_nat [unat (0::'c word)..<unat (0::'c word) + ?c] :: 'i word list)"
      using lt True by (intro iota_upt) simp
    then show ?thesis using True isz by (simp add: concat_singletons)
  next
    case False
    then show ?thesis using isz by (simp add: fill_blocks_def map_of_nat_blocks)
  qed
  have lc: "length ?wcycle = unat ?isz"
    using isz by (simp add: length_concat comp_def sum_list_triv mult.commute)
  have "unat outer = ?m * ?c"
    using Suc.prems(5) f by (simp add: take_Suc_conv_app_nth)
  then have dv: "unat outer div ?c = ?m" using cpos by simp
  have "\<forall>c \<in> set (map snd (take f inputs)). 0 < c"
    using Suc.prems(3) by (auto dest: in_set_takeD)
  then have mpos: "0 < ?m" by (rule prod_list_pos)
  have "?m * prod_list (map snd (drop f inputs)) = prod_list ?cs"
    by (rule prod_list_take_drop)
  moreover have "0 < prod_list (map snd (drop f inputs))"
    using isz' isz cpos lt Suc.prems(3) by (intro prod_list_pos) (auto dest: in_set_dropD)
  ultimately have "?m \<le> prod_list ?cs"
    by (metis One_nat_def Suc_leI mult.right_neutral mult_le_mono2)
  then have mlt: "?m < 2 ^ LENGTH('c)" using Suc.prems(4) by simp
  have uo: "unat (of_nat (unat outer div ?c) :: 'c word) = ?m"
    using mlt dv by (simp only: unat_of_nat_small)
  have "length [1..<?m] = ?m - 1" by simp
  then have "fold (\<lambda>r out. out @ take (unat ?isz) out) [1..<?m] ?wcycle
             = concat (replicate ?m ?wcycle)"
    using insert_loop [OF lc, of "[1..<?m]"] mpos by simp
  also have "\<dots> = map of_nat (concat (replicate ?m ?cycle))"
    by (simp add: map_concat)
  also have "concat (replicate ?m ?cycle) = cartesian_column ?cs f"
    using table_column [of f ?cs] f Suc.prems(6)
    by (simp add: take_map drop_map)
  finally have out: "fold (\<lambda>r out. out @ take (unat ?isz) out)
                       [1..<unat (of_nat (unat outer div ?c) :: 'c word)] ?wcycle
                     = map of_nat (cartesian_column ?cs f)"
    using uo by simp
  have "table_loop max_size inputs ncombos f (of_nat (unat outer div ?c)) ?isz
          (outp[f := map of_nat (cartesian_column ?cs f)])
        = Inr (map (\<lambda>g. if g < f then map of_nat (cartesian_column ?cs g)
                          else outp[f := map of_nat (cartesian_column ?cs f)] ! g)
                 [0..<length inputs])"
    using Suc.prems(2,3,4,7,8) f uo isz' by (intro Suc.IH) simp_all
  also have "map (\<lambda>g. if g < f then map of_nat (cartesian_column ?cs g)
                          else outp[f := map of_nat (cartesian_column ?cs f)] ! g)
               [0..<length inputs]
             = map (\<lambda>g. if g < Suc f then map of_nat (cartesian_column ?cs g) else outp ! g)
                 [0..<length inputs]"
    using Suc.prems(2) f by (intro map_cong) (auto simp: less_Suc_eq)
  finally show ?case
    using cpos out res rsz
    by (simp only: table_loop.simps Let_def filled sum.case if_False) simp
qed

lemma length_cartesian_column [simp]: "length (cartesian_column cs f) = prod_list cs"
  by (simp add: cartesian_column_def)

lemma table_rows_cartesian:
  assumes "cs \<noteq> []"
  shows "table_rows (map (cartesian_column cs) [0..<length cs])
         = map (cartesian_row cs) [0..<prod_list cs]"
proof -
  obtain c cs' where cs: "cs = c # cs'" using assms by (cases cs) auto
  have up: "[0..<length cs] = 0 # [Suc 0..<length cs]"
    using cs by (intro upt_conv_Cons) simp
  have "table_rows (map (cartesian_column cs) [0..<length cs])
        = map (\<lambda>j. map (\<lambda>c. c ! j) (map (cartesian_column cs) [0..<length cs]))
            [0..<prod_list cs]"
    unfolding table_rows_def by (subst (1) up) simp
  also have "\<dots> = map (cartesian_row cs) [0..<prod_list cs]"
    by (rule map_cong) (auto simp: cartesian_row_def cartesian_column_def)
  finally show ?thesis .
qed

lemma row_mod:
  fixes cs :: "nat list"
  assumes "f < length cs"
  shows "((j mod prod_list cs) div prod_list (drop (Suc f) cs)) mod (cs ! f)
         = (j div prod_list (drop (Suc f) cs)) mod (cs ! f)"
proof -
  let ?s = "prod_list (drop (Suc f) cs)"
  let ?d = "cs ! f"
  let ?m = "prod_list (take f cs)"
  have "prod_list cs = ?s * (?d * ?m)"
    using prod_list_split_nth [OF assms] by (simp add: mult.commute mult.left_commute)
  then have "(j mod prod_list cs) div ?s = (j div ?s) mod (?d * ?m)"
    by (simp only: div_mod_mixed)
  moreover have "((j div ?s) mod (?d * ?m)) mod ?d = (j div ?s) mod ?d"
    by (rule mod_mod_cancel) simp
  ultimately show ?thesis by simp
qed

lemma cartesian_row_Cons:
  "cartesian_row (c # cs) j = (j div prod_list cs) mod c # cartesian_row cs j"
proof -
  have "[0..<Suc (length cs)] = 0 # [Suc 0..<Suc (length cs)]"
    by (rule upt_conv_Cons) simp
  then have "[0..<length (c # cs)] = 0 # map Suc [0..<length cs]"
    by (simp only: map_Suc_upt length_Cons)
  then show ?thesis
    by (simp add: cartesian_row_def comp_def del: upt_Suc)
qed

lemma cartesian_row_mod: "cartesian_row cs (j mod prod_list cs) = cartesian_row cs j"
  unfolding cartesian_row_def by (rule map_cong) (auto simp: row_mod)

lemma product_lists_rows:
  "product_lists (map (\<lambda>c. [0..<c]) cs) = map (cartesian_row cs) [0..<prod_list cs]"
proof (induction cs)
  case Nil
  then show ?case by (simp add: cartesian_row_def)
next
  case (Cons c cs)
  let ?P = "prod_list cs"
  have "product_lists (map (\<lambda>c. [0..<c]) (c # cs))
        = concat (map (\<lambda>x. map (\<lambda>r. x # cartesian_row cs r) [0..<?P]) [0..<c])"
    using Cons by (simp add: comp_def)
  also have "\<dots> = map (\<lambda>j. (j div ?P) # cartesian_row cs (j mod ?P)) [0..<c * ?P]"
    by (rule concat_blocks)
  also have "\<dots> = map (cartesian_row (c # cs)) [0..<c * ?P]"
  proof (rule map_cong)
    fix j assume "j \<in> set [0..<c * ?P]"
    then have "j < c * ?P" by simp
    then have "j div ?P < c" by (rule less_mult_imp_div_less)
    then show "(j div ?P) # cartesian_row cs (j mod ?P) = cartesian_row (c # cs) j"
      by (simp add: cartesian_row_Cons cartesian_row_mod)
  qed simp
  finally show ?case by simp
qed

lemma mixed_radix_digit:
  assumes "\<forall>(v, c) \<in> set ds. v < c" and "f < length ds"
  shows "(mixed_radix ds div prod_list (drop (Suc f) (map snd ds))) mod snd (ds ! f)
         = fst (ds ! f)"
  using assms
proof (induction ds arbitrary: f)
  case Nil
  then show ?case by simp
next
  case (Cons d ds)
  obtain v c where d: "d = (v, c)" by (cases d)
  let ?P = "prod_list (map snd ds)"
  have vc: "v < c" and rest: "\<forall>(v, c) \<in> set ds. v < c"
    using Cons.prems(1) d by auto
  have mr: "mixed_radix ds < ?P" using rest by (rule mixed_radix_less)
  show ?case
  proof (cases f)
    case 0
    have "(v * ?P + mixed_radix ds) div ?P = v" using mr by simp
    then show ?thesis using 0 d vc by simp
  next
    case (Suc f')
    let ?s = "prod_list (drop (Suc f') (map snd ds))"
    let ?dd = "snd (ds ! f')"
    have f': "f' < length ds" using Cons.prems(2) Suc by simp
    have "prod_list (take f' (map snd ds)) * (?s * map snd ds ! f') = ?P"
      using f' by (intro prod_list_split_nth) simp
    then have P: "?P = (prod_list (take f' (map snd ds)) * ?dd) * ?s"
      using f' by (simp add: mult.commute mult.left_commute)
    have spos: "0 < ?s" using mr P by (cases "?s = 0") auto
    have "(v * ?P + mixed_radix ds) div ?s
          = v * prod_list (take f' (map snd ds)) * ?dd + mixed_radix ds div ?s"
      using spos by (subst P) (simp add: mult.assoc [symmetric])
    then have "((v * ?P + mixed_radix ds) div ?s) mod ?dd = (mixed_radix ds div ?s) mod ?dd"
      by simp
    also have "\<dots> = fst (ds ! f')" using rest f' by (rule Cons.IH)
    finally show ?thesis using Suc d by simp
  qed
qed

lemma as_size_type_ok: "sz \<le> size_max \<Longrightarrow> as_size_type sz = Inr sz"
  by (simp add: as_size_type_def)

lemma unused_fst:
  assumes "2 \<le> length inputs" and "length inputs \<le> size_max"
  shows "fst (combine_to_factor_unused max_size n inputs codes)
         = fst (code_loop n inputs (length inputs - 1)
                  (of_nat (snd (inputs ! (length inputs - 1))))
                  (copy_n (fst (inputs ! (length inputs - 1))) n codes))"
  using assms
  by (auto simp: combine_to_factor_unused_def as_size_type_ok Let_def
      split: prod.splits sum.splits)

lemma copy_n_full:
  "length src = n \<Longrightarrow> length codes = n \<Longrightarrow> copy_n src n codes = map (\<lambda>v. of_nat (unat v)) src"
  by (simp add: copy_n_def)

lemma prod_list_nth_le:
  assumes "\<forall>c \<in> set cs. 0 < (c::nat)" and "f < length cs"
  shows "cs ! f \<le> prod_list cs"
proof -
  have "0 < prod_list (take f cs)" "0 < prod_list (drop (Suc f) cs)"
    using assms(1) by (auto intro!: prod_list_pos dest: in_set_takeD in_set_dropD)
  then have "1 * (1 * cs ! f) \<le> prod_list (take f cs) * (prod_list (drop (Suc f) cs) * cs ! f)"
    by (intro mult_le_mono) simp_all
  then show ?thesis using prod_list_split_nth [OF assms(2)] by simp
qed

lemma unused_codes_formula:
  fixes codes :: "'c::len word list"
  assumes "length inputs \<le> size_max" and "length codes = n"
    and "\<forall>(vals, c) \<in> set inputs. length vals = n \<and> (\<forall>i<n. unat (vals ! i) < c)"
    and "prod_list (map snd inputs) < 2 ^ LENGTH('c)"
    and "length inputs = 1 \<longrightarrow>
           prod_list (map snd inputs) \<le> size_max \<and> prod_list (map snd inputs) \<le> max_size"
    and "i < n"
  shows "unat (fst (combine_to_factor_unused max_size n inputs codes) ! i)
         = mixed_radix (digits_at inputs i)"
proof -
  let ?k = "length inputs"
  have pos: "\<forall>c \<in> set (map snd inputs). 0 < c"
    using assms(3,6) by fastforce
  have range: "\<forall>i<n. \<forall>(vals, c) \<in> set inputs. unat (vals ! i) < c"
    using assms(3) by fastforce
  consider "?k = 0" | "?k = 1" | "2 \<le> ?k" by linarith
  then show ?thesis
  proof cases
    case 1
    then show ?thesis
      using assms(2,6)
      by (simp add: combine_to_factor_unused_def as_size_type_ok digits_at_def fill_n_def)
  next
    case 2
    then obtain vals c where inp: "inputs = [(vals, c)]"
      by (cases inputs) auto
    have c: "c < 2 ^ LENGTH('c)" "c \<le> size_max" "c \<le> max_size"
      using assms(4,5) inp by auto
    have v: "unat (vals ! i) < c" "length vals = n" using assms(3,6) inp by auto
    then have "unat (of_nat (unat (vals ! i)) :: 'c word) = unat (vals ! i)"
      using c by (intro unat_of_nat_small) simp
    moreover have "(1::nat) \<le> size_max" by (simp add: size_max_def)
    ultimately show ?thesis
      using inp v c assms(2,6)
      by (simp add: combine_to_factor_unused_def as_size_type_ok digits_at_def copy_n_full)
  next
    case 3
    let ?l = "?k - 1"
    let ?vals = "fst (inputs ! ?l)"
    let ?c = "snd (inputs ! ?l)"
    have l: "?l < ?k" "Suc ?l = ?k" using 3 by simp_all
    have mem: "(?vals, ?c) \<in> set inputs" using l(1) by (metis nth_mem prod.collapse)
    have lv: "length ?vals = n" and vi: "\<forall>i<n. unat (?vals ! i) < ?c"
      using assms(3) mem by auto
    have dr: "drop ?l inputs = [inputs ! ?l]"
      using drop_Suc_step [OF l(1)] l(2) by simp
    have "?c \<le> prod_list (map snd inputs)"
      using prod_list_nth_le [OF pos, of ?l] l(1) by simp
    then have clt: "?c < 2 ^ LENGTH('c)" using assms(4) by simp
    have nc: "unat (of_nat ?c :: 'c word) = prod_list (map snd (drop ?l inputs))"
      using clt dr by (simp add: unat_of_nat_small)
    have c0: "\<forall>i<n. unat (copy_n ?vals n codes ! i) = mixed_radix (drop ?l (digits_at inputs i))"
    proof (intro allI impI)
      fix j assume j: "j < n"
      then have "unat (?vals ! j) < 2 ^ LENGTH('c)" using vi clt by (meson less_trans)
      then have "unat (of_nat (unat (?vals ! j)) :: 'c word) = unat (?vals ! j)"
        by (rule unat_of_nat_small)
      moreover have "drop ?l (digits_at inputs j) = [(unat (?vals ! j), ?c)]"
        unfolding digits_at_def drop_map dr by (simp add: case_prod_beta)
      ultimately show "unat (copy_n ?vals n codes ! j) = mixed_radix (drop ?l (digits_at inputs j))"
        using j lv assms(2) by (simp add: copy_n_full)
    qed
    have "length (copy_n ?vals n codes) = n"
      using lv assms(2) by (simp add: copy_n_full)
    then have "\<forall>i<n. unat (fst (code_loop n inputs ?l (of_nat ?c) (copy_n ?vals n codes)) ! i)
                   = mixed_radix (digits_at inputs i)"
      using l(1) pos assms(4) nc range c0 by (intro code_loop_codes) simp_all
    then show ?thesis using assms(1,6) 3 by (simp add: unused_fst)
  qed
qed

lemma unused_length:
  "length codes = n \<Longrightarrow> \<forall>(vals, c) \<in> set inputs. length vals = n \<Longrightarrow>
   length (fst (combine_to_factor_unused max_size n inputs codes)) = n"
proof -
  assume a: "length codes = n" "\<forall>(vals, c) \<in> set inputs. length vals = n"
  have "length (copy_n (fst (inputs ! j)) n codes) = n" if "j < length inputs" for j
  proof -
    have "(fst (inputs ! j), snd (inputs ! j)) \<in> set inputs" using that by simp
    then show ?thesis using a by (auto simp: copy_n_def)
  qed
  note cp = this
  have cl: "length (fst (code_loop n inputs f nc cs)) = length cs" for f nc cs
    by (rule code_loop_length)
  show ?thesis
  proof (cases "length inputs \<le> 1")
    case True
    then show ?thesis using a cp [of 0]
      by (auto simp: combine_to_factor_unused_def Let_def fill_n_def split: sum.splits)
  next
    case False
    then have "length inputs - 1 < length inputs" by simp
    then have "length (copy_n (fst (inputs ! (length inputs - 1))) n codes) = n" by (rule cp)
    then show ?thesis using a False
        cl [of "length inputs - 1" "of_nat (snd (inputs ! (length inputs - 1)))"
            "copy_n (fst (inputs ! (length inputs - 1))) n codes"]
      by (auto simp: combine_to_factor_unused_def Let_def split: sum.splits prod.splits)
  qed
qed

lemma cast_size_ok: "unat x \<le> size_max \<Longrightarrow> cast_size x = Inr (unat x)"
  by (simp add: cast_size_def)

lemma cartesian_column_single: "cartesian_column [c] 0 = [0..<c]"
proof -
  have "map (\<lambda>j. j mod c) [0..<c] = map (\<lambda>j. j) [0..<c]"
    by (rule map_cong) auto
  then show ?thesis by (simp add: cartesian_column_def)
qed

lemma unused_table:
  fixes codes :: "'c::len word list" and inputs :: "('i::len word list \<times> nat) list"
  assumes "length inputs \<le> size_max"
    and "2 \<le> length inputs \<longrightarrow> (\<forall>c \<in> set (map snd inputs). 0 < c)"
    and "prod_list (map snd inputs) < 2 ^ LENGTH('c)"
    and "inputs = [] \<or> prod_list (map snd inputs) \<le> size_max"
    and "inputs = [] \<or> prod_list (map snd inputs) \<le> max_size"
  shows "snd (combine_to_factor_unused max_size n inputs codes)
         = Inr (map (\<lambda>f. map of_nat (cartesian_column (map snd inputs) f)) [0..<length inputs])"
proof -
  let ?k = "length inputs"
  let ?P = "prod_list (map snd inputs)"
  let ?col = "\<lambda>f. map of_nat (cartesian_column (map snd inputs) f) :: 'i word list"
  consider "?k = 0" | "?k = 1" | "2 \<le> ?k" by linarith
  then show ?thesis
  proof cases
    case 1
    then show ?thesis
      by (simp add: combine_to_factor_unused_def as_size_type_def)
  next
    case 2
    then obtain vals c where inp: "inputs = [(vals, c)]"
      by (cases inputs) auto
    have "unat (0::'c word) + c \<le> 2 ^ LENGTH('c)" using assms(3) inp by simp
    then have "iota c (0::'c word)
               = (map of_nat [unat (0::'c word)..<unat (0::'c word) + c] :: 'i word list)"
      by (rule iota_upt)
    moreover have "(1::nat) \<le> size_max" by (simp add: size_max_def)
    ultimately show ?thesis
      using inp assms(4,5)
      by (simp add: combine_to_factor_unused_def as_size_type_ok cartesian_column_single)
  next
    case 3
    let ?l = "?k - 1"
    let ?c = "snd (inputs ! ?l)"
    let ?codes0 = "copy_n (fst (inputs ! ?l)) n codes"
    have pos: "\<forall>c \<in> set (map snd inputs). 0 < c" using assms(2) 3 by simp
    have l: "?l < ?k" "Suc ?l = ?k" using 3 by simp_all
    have dr: "drop ?l inputs = [inputs ! ?l]"
      using drop_Suc_step [OF l(1)] l(2) by simp
    have "?c \<le> ?P"
      using prod_list_nth_le [OF pos, of ?l] l(1) by simp
    then have clt: "?c < 2 ^ LENGTH('c)" using assms(3) by simp
    have nc: "unat (of_nat ?c :: 'c word) = prod_list (map snd (drop ?l inputs))"
      using clt dr by (simp add: unat_of_nat_small)
    have sn: "snd (code_loop n inputs ?l (of_nat ?c) ?codes0) = Inr (of_nat ?P)"
      using l(1) pos assms(3) nc by (intro code_loop_ncombos) simp_all
    have uP: "unat (of_nat ?P :: 'c word) = ?P"
      using assms(3) by (rule unat_of_nat_small)
    have ne: "inputs \<noteq> []" using 3 by auto
    have cast: "cast_size (of_nat ?P :: 'c word) = Inr ?P"
      using uP assms(4) ne by (simp add: cast_size_def)
    have "table_loop max_size inputs (of_nat ?P :: 'c word) ?k (of_nat ?P :: 'c word) 1
            (replicate ?k [])
          = Inr (map (\<lambda>g. if g < ?k then ?col g else replicate ?k [] ! g) [0..<?k])"
      using pos assms(3,5) uP ne by (intro table_loop_columns) simp_all
    also have "map (\<lambda>g. if g < ?k then ?col g else replicate ?k [] ! g) [0..<?k]
               = map ?col [0..<?k]"
      by (rule map_cong) auto
    finally have tl: "table_loop max_size inputs (of_nat ?P :: 'c word) ?k (of_nat ?P :: 'c word) 1
                        (replicate ?k [])
                      = Inr (map ?col [0..<?k])" .
    obtain cs' where cl: "code_loop n inputs ?l (of_nat ?c) ?codes0 = (cs', Inr (of_nat ?P))"
      using sn by (cases "code_loop n inputs ?l (of_nat ?c :: 'c word) ?codes0") auto
    show ?thesis
      using 3 assms(1) cl cast tl
      by (simp add: combine_to_factor_unused_def as_size_type_ok Let_def)
  qed
qed

lemma product_lists_map:
  "map (map f) (product_lists xss) = product_lists (map (map f) xss)"
proof (induction xss)
  case Nil
  then show ?case by simp
next
  case (Cons xs xss)
  have "map (map f) (product_lists (xs # xss))
        = concat (map (\<lambda>x. map (\<lambda>ys. f x # ys) (map (map f) (product_lists xss))) xs)"
    by (simp add: map_concat comp_def)
  also have "\<dots> = concat (map (\<lambda>x. map (\<lambda>ys. f x # ys) (product_lists (map (map f) xss))) xs)"
    by (simp only: Cons.IH)
  also have "\<dots> = product_lists (map (map f) (xs # xss))"
    by (simp add: comp_def)
  finally show ?case .
qed

lemma table_rows_map:
  assumes "\<forall>col \<in> set table. length col = length (hd table)"
  shows "table_rows (map (map f) table) = map (map f) (table_rows table)"
proof (cases table)
  case Nil
  then show ?thesis by (simp add: table_rows_def)
next
  case (Cons a rest)
  then have "\<forall>col \<in> set rest. length col = length a" using assms by simp
  then show ?thesis using Cons by (simp add: table_rows_def comp_def)
qed

lemma of_nat_upt_strict_sorted:
  assumes "c \<le> 2 ^ LENGTH('i)"
  shows "sorted_wrt (<) (map (of_nat :: nat \<Rightarrow> 'i::len word) [0..<c])"
proof -
  have "sorted_wrt (\<lambda>x y. (of_nat x :: 'i word) < of_nat y) [0..<c]"
  proof (rule sorted_wrt_mono_rel [of _ "(<)"])
    fix x y assume "x \<in> set [0..<c]" "y \<in> set [0..<c]" "x < y"
    then have "x < 2 ^ LENGTH('i)" "y < 2 ^ LENGTH('i)" "x < y" using assms by simp_all
    then show "(of_nat x :: 'i word) < of_nat y"
      by (simp add: word_less_nat_alt unat_of_nat_small)
  qed simp
  then show ?thesis by (simp only: sorted_wrt_map)
qed

lemma product_lists_strict_sorted:
  fixes xss :: "('a::linorder) list list"
  assumes "\<forall>xs \<in> set xss. sorted_wrt (<) xs"
  shows "sorted_wrt (<) (product_lists xss)"
  using assms
proof (induction xss)
  case Nil
  then show ?case by simp
next
  case (Cons xs xss)
  let ?PL = "product_lists xss"
  have pl: "sorted_wrt (<) ?PL" using Cons by simp
  have xs: "sorted_wrt (<) xs" using Cons.prems by simp
  have "sorted_wrt (<) (concat (map (\<lambda>x. map (Cons x) ?PL) xs))"
    using xs
  proof (induction xs)
    case Nil
    then show ?case by simp
  next
    case (Cons x xs)
    have "sorted_wrt (<) (map (Cons x) ?PL)"
      using pl by (simp add: sorted_wrt_map)
    moreover have "sorted_wrt (<) (concat (map (\<lambda>x. map (Cons x) ?PL) xs))"
      using Cons by simp
    moreover have "\<forall>a \<in> set (map (Cons x) ?PL).
                     \<forall>b \<in> set (concat (map (\<lambda>x. map (Cons x) ?PL) xs)). a < b"
      using Cons.prems by auto
    ultimately show ?case by (simp add: sorted_wrt_append)
  qed
  then show ?case by simp
qed

lemma cartesian_rows_set:
  "set (product_lists (map (\<lambda>c. [0..<c]) cs)) = {l. list_all2 (\<lambda>x c. x < c) l cs}"
  by (simp add: product_lists_set list_all2_map2)

lemmas unused_eval =
  combine_to_factor_unused_def as_size_type_def size_max_def copy_n_def fill_n_def
  product_def product_unsafe_def cast_size_def fill_blocks_def Let_def

lemma code_loop_in_range_ok:
  fixes ncombos :: "'c::len word"
  assumes "f \<le> length inputs" and "length codes = n"
    and "\<forall>c \<in> set (map snd inputs). 0 < c"
    and "prod_list (map snd inputs) < 2 ^ LENGTH('c)"
    and "unat ncombos = prod_list (map snd (drop f inputs))"
    and "\<forall>i<n. \<forall>(vals, c) \<in> set inputs. unat (vals ! i) < c"
    and "\<forall>i<n. unat (codes ! i) = mixed_radix (drop f (digits_at inputs i))"
  shows "code_loop_in_range n inputs f ncombos codes"
  using assms
proof (induction f arbitrary: ncombos codes)
  case 0
  then show ?case by simp
next
  case (Suc f)
  let ?c = "snd (inputs ! f)"
  let ?ff = "fst (inputs ! f)"
  let ?codes' = "fold (\<lambda>i cs. cs[i := cs ! i + product_unsafe ncombos (unat (?ff ! i))]) [0..<n] codes"
  let ?next = "of_nat (unat ncombos * ?c) :: 'c word"
  have f: "f < length inputs" using Suc.prems by simp
  have dr: "drop f inputs = inputs ! f # drop (Suc f) inputs"
    using f by (rule drop_Suc_step)
  have P: "unat ncombos * ?c = prod_list (map snd (drop f inputs))"
    using Suc.prems(5) dr by (simp add: mult.commute)
  also have "\<dots> \<le> prod_list (map snd inputs)"
    using Suc.prems(3) by (rule prod_list_drop_le)
  finally have lt: "unat ncombos * ?c < 2 ^ LENGTH('c)"
    using Suc.prems(4) by simp
  then have pr: "product ncombos ?c = Inr ?next"
    by (rule product_ok)
  have nx: "unat ?next = prod_list (map snd (drop f inputs))"
    using lt P by (simp only: unat_of_nat_small)
  have len: "length ?codes' = n"
    using Suc.prems(2) by (simp add: fold_update_length)
  have step: "unat ncombos * unat (?ff ! i) < 2 ^ LENGTH('c)
              \<and> unat (codes ! i) + unat ncombos * unat (?ff ! i) < 2 ^ LENGTH('c)
              \<and> unat (?codes' ! i) < unat ?next
              \<and> unat (?codes' ! i) = mixed_radix (drop f (digits_at inputs i))"
    if i: "i < n" for i
  proof -
    have nth: "?codes' ! i = codes ! i + product_unsafe ncombos (unat (?ff ! i))"
      using fold_update_nth [where g = "\<lambda>i x. x + product_unsafe ncombos (unat (?ff ! i))"]
        Suc.prems(2) i by simp
    have dd: "drop f (digits_at inputs i)
              = (unat (?ff ! i), ?c) # drop (Suc f) (digits_at inputs i)"
      using f by (simp add: digits_at_def drop_Suc_step [of f] case_prod_beta flip: drop_map)
    have sn: "map snd (drop (Suc f) (digits_at inputs i)) = map snd (drop (Suc f) inputs)"
      by (simp add: digits_at_def case_prod_beta comp_def flip: drop_map)
    have "\<forall>(v, c) \<in> set (digits_at inputs i). v < c"
      using Suc.prems(6) i by (auto simp: digits_at_def)
    then have "\<forall>(v, c) \<in> set (drop f (digits_at inputs i)). v < c"
      by (auto dest: in_set_dropD)
    then have "mixed_radix (drop f (digits_at inputs i))
               < prod_list (map snd (drop f (digits_at inputs i)))"
      by (rule mixed_radix_less)
    also have "\<dots> = prod_list (map snd (drop f inputs))"
      by (simp add: digits_at_def case_prod_beta comp_def flip: drop_map)
    finally have mr: "mixed_radix (drop f (digits_at inputs i)) < unat ?next"
      using nx by simp
    have val: "mixed_radix (drop f (digits_at inputs i))
               = unat (?ff ! i) * unat ncombos + unat (codes ! i)"
      using dd sn Suc.prems(5,7) i by simp
    have b: "unat (?ff ! i) * unat ncombos + unat (codes ! i) < 2 ^ LENGTH('c)"
      using mr val nx P lt by simp
    have "unat (codes ! i + product_unsafe ncombos (unat (?ff ! i)))
          = unat (?ff ! i) * unat ncombos + unat (codes ! i)"
      using b by (intro code_step_unat) simp_all
    then have "unat (?codes' ! i) = mixed_radix (drop f (digits_at inputs i))"
      using nth val by simp
    then show ?thesis
      using b mr by (simp add: mult.commute add.commute)
  qed
  have "code_loop_in_range n inputs f ?next ?codes'"
    using Suc.prems(3,4,6) f len nx step by (intro Suc.IH) simp_all
  moreover have "list_all (\<lambda>i. unat ncombos * unat (?ff ! i) < 2 ^ LENGTH('c)
                     \<and> unat (codes ! i) + unat ncombos * unat (?ff ! i) < 2 ^ LENGTH('c)
                     \<and> unat (?codes' ! i) < unat ?next) [0..<n]"
    unfolding list_all_iff
  proof
    fix i assume "i \<in> set [0..<n]"
    then have "i < n" by simp
    from step [OF this]
    show "unat ncombos * unat (?ff ! i) < 2 ^ LENGTH('c)
          \<and> unat (codes ! i) + unat ncombos * unat (?ff ! i) < 2 ^ LENGTH('c)
          \<and> unat (?codes' ! i) < unat ?next"
      by blast
  qed
  ultimately show ?case
    by (simp only: code_loop_in_range.simps Let_def pr sum.case simp_thms)
qed

lemma table_loop_in_range_ok:
  fixes outer inner :: "'c::len word"
  assumes "f \<le> length inputs"
    and "\<forall>c \<in> set (map snd inputs). 0 < c"
    and "prod_list (map snd inputs) < 2 ^ LENGTH('c)"
    and "unat outer = prod_list (map snd (take f inputs))"
    and "unat inner = prod_list (map snd (drop f inputs))"
  shows "table_loop_in_range inputs f outer inner (prod_list (map snd inputs))"
  using assms
proof (induction f arbitrary: outer inner)
  case 0
  then show ?case by simp
next
  case (Suc f)
  let ?cs = "map snd inputs"
  let ?c = "snd (inputs ! f)"
  let ?isz = "inner * of_nat ?c"
  let ?m = "prod_list (map snd (take f inputs))"
  have f: "f < length inputs" using Suc.prems by simp
  have cpos: "0 < ?c" using Suc.prems(2) f by simp
  have dr: "drop f inputs = inputs ! f # drop (Suc f) inputs"
    using f by (rule drop_Suc_step)
  have eq: "unat inner * ?c = prod_list (map snd (drop f inputs))"
    using Suc.prems(5) dr by (simp add: mult.commute)
  also have "\<dots> \<le> prod_list ?cs"
    using Suc.prems(2) by (rule prod_list_drop_le)
  finally have le: "unat inner * ?c \<le> prod_list ?cs" .
  then have lt: "unat inner * ?c < 2 ^ LENGTH('c)" using Suc.prems(3) by simp
  have "?isz = of_nat (unat inner * ?c)" by simp
  then have isz: "unat ?isz = prod_list (map snd (drop f inputs))"
    using lt eq by (simp only: unat_of_nat_small)
  have "unat outer = ?m * ?c"
    using Suc.prems(4) f by (simp add: take_Suc_conv_app_nth)
  then have dv: "unat outer div ?c = ?m" using cpos by simp
  have "?m \<le> unat outer" using \<open>unat outer = ?m * ?c\<close> cpos by simp
  then have "?m < 2 ^ LENGTH('c)" by (meson le_less_trans unsigned_less)
  then have uo: "unat (of_nat (unat outer div ?c) :: 'c word) = ?m"
    using dv by (simp only: unat_of_nat_small)
  have "table_loop_in_range inputs f (of_nat (unat outer div ?c)) ?isz (prod_list ?cs)"
    using Suc.prems(2,3) f uo isz by (intro Suc.IH) simp_all
  then show ?case
    using le cpos by (simp only: table_loop_in_range.simps Let_def) simp
qed

lemma table_loop_Inr_pos:
  "table_loop max_size inputs nc f outer inner outp = Inr t \<Longrightarrow> g < f \<Longrightarrow> snd (inputs ! g) \<noteq> 0"
proof (induction f arbitrary: outer inner outp)
  case 0
  then show ?case by simp
next
  case (Suc f)
  then show ?case
    by (cases "g = f") (auto simp: Let_def less_Suc_eq split: sum.splits if_splits)
qed

lemma table_loop_Inr_reserve:
  "table_loop max_size inputs nc (Suc f) outer inner outp = Inr t \<Longrightarrow> unat nc \<le> max_size"
  by (auto simp: Let_def split: if_splits)

lemma unused_zero_cardinality_never_returns:
  fixes codes :: "'c::len word list"
  assumes "2 \<le> length inputs" and "0 \<in> set (map snd inputs)"
  shows "snd (combine_to_factor_unused max_size n inputs codes) \<noteq> Inr t"
proof
  assume r: "snd (combine_to_factor_unused max_size n inputs codes) = Inr t"
  obtain g where g: "g < length inputs" "snd (inputs ! g) = 0"
    using assms(2) by (auto simp: in_set_conv_nth)
  from r assms(1) obtain nc :: "'c word" where
    "table_loop max_size inputs nc (length inputs) nc 1 (replicate (length inputs) []) = Inr t"
    by (auto simp: combine_to_factor_unused_def Let_def as_size_type_def
        split: sum.splits prod.splits if_splits)
  then show False using g by (auto dest: table_loop_Inr_pos)
qed

subsection \<open>create_factor\<close>

lemma fold_scan_length:
  "length (snd (fold (create_factor_scan input) xs st)) = length (snd st)"
  by (induction xs arbitrary: st)
     (auto simp: create_factor_scan_def Let_def split: prod.splits option.splits)

lemma create_factor_scan_inv:
  assumes "scan_inv input m st" and "m < length input" and "m < length (snd st)"
  shows "scan_inv input (Suc m) (create_factor_scan input m st)"
proof -
  obtain mapping codes where st: "st = (mapping, codes)" by (cases st)
  have inv: "map snd mapping = map of_nat [0..<length mapping]"
    "distinct (map fst mapping)"
    "set (map fst mapping) = set (take m input)"
    "\<forall>j<m. map_of mapping (input ! j) = Some (codes ! j)"
    using assms(1) st by (auto simp: scan_inv_def)
  have tk: "set (take (Suc m) input) = insert (input ! m) (set (take m input))"
    using assms(2) by (simp add: take_Suc_conv_app_nth)
  have mc: "m < length codes" using assms(3) st by simp
  show ?thesis
  proof (cases "map_of mapping (input ! m)")
    case (Some c)
    then have "input ! m \<in> set (map fst mapping)"
      by (metis map_of_eq_None_iff option.distinct(1) set_map)
    then have "set (map fst mapping) = set (take (Suc m) input)"
      using inv(3) tk by auto
    moreover have "\<forall>j<Suc m. map_of mapping (input ! j) = Some (codes[m := c] ! j)"
      using inv(4) Some mc by (auto simp: less_Suc_eq nth_list_update)
    ultimately show ?thesis
      using st Some inv(1,2) by (simp add: create_factor_scan_def scan_inv_def)
  next
    case None
    let ?alt = "of_nat (length mapping) :: 'b word"
    let ?mapping = "mapping @ [(input ! m, ?alt)]"
    have notin: "input ! m \<notin> set (map fst mapping)"
      using None by (simp add: map_of_eq_None_iff)
    have a: "map snd ?mapping = map of_nat [0..<length ?mapping]"
      using inv(1) by simp
    have b: "distinct (map fst ?mapping)" using inv(2) notin by simp
    have c: "set (map fst ?mapping) = set (take (Suc m) input)"
      using inv(3) tk by auto
    have d: "\<forall>j<Suc m. map_of ?mapping (input ! j) = Some (codes[m := ?alt] ! j)"
    proof (intro allI impI)
      fix j assume "j < Suc m"
      then consider "j < m" | "j = m" by linarith
      then show "map_of ?mapping (input ! j) = Some (codes[m := ?alt] ! j)"
      proof cases
        case 1
        then have "map_of mapping (input ! j) = Some (codes ! j)" using inv(4) by simp
        then show ?thesis using 1 by (simp add: map_add_Some_iff)
      next
        case 2
        then show ?thesis using None mc by (simp add: map_add_Some_iff)
      qed
    qed
    show ?thesis
      using st None a b c d
      by (simp only: create_factor_scan_def scan_inv_def Let_def prod.case option.case)
  qed
qed

lemma fold_scan_inv:
  assumes "m \<le> length input" and "m \<le> length codes"
  shows "scan_inv input m (fold (create_factor_scan input) [0..<m] ([], codes))"
  using assms
proof (induction m)
  case 0
  then show ?case by (simp add: scan_inv_def)
next
  case (Suc m)
  let ?st = "fold (create_factor_scan input) [0..<m] ([], codes)"
  have "scan_inv input m ?st" using Suc by simp
  moreover have "m < length (snd ?st)"
    using Suc.prems by (simp add: fold_scan_length)
  ultimately have "scan_inv input (Suc m) (create_factor_scan input m ?st)"
    using Suc.prems by (intro create_factor_scan_inv) simp_all
  then show ?case by simp
qed

lemma fold_update_other:
  "i \<notin> idx ` set us \<Longrightarrow> fold (\<lambda>u r. r[idx u := val u]) us r ! i = r ! i"
  by (induction us arbitrary: r) auto

lemma fold_update_distinct:
  assumes "distinct (map idx us)" and "u \<in> set us" and "idx u < length r"
  shows "fold (\<lambda>u r. r[idx u := val u]) us r ! idx u = val u"
  using assms
proof (induction us arbitrary: r)
  case Nil
  then show ?case by simp
next
  case (Cons a us)
  show ?case
  proof (cases "u = a")
    case True
    have "idx a \<notin> idx ` set us" using Cons.prems(1) by simp
    then have "fold (\<lambda>u r. r[idx u := val u]) us (r[idx a := val a]) ! idx a
               = r[idx a := val a] ! idx a"
      by (rule fold_update_other)
    then show ?thesis using True Cons.prems(3) by simp
  next
    case False
    then have "u \<in> set us" using Cons.prems(2) by simp
    then show ?thesis using Cons.IH [of "r[idx a := val a]"] Cons.prems by simp
  qed
qed

text \<open>The table \<open>remapping\<close> sends the label of the entry at position \<open>u\<close> to \<open>u\<close>.\<close>

lemma remapping_nth:
  fixes unique :: "('k \<times> 'c::len word) list"
  assumes "distinct (map (unat \<circ> snd) unique)"
    and "\<forall>e \<in> set unique. unat (snd e) < length unique"
    and "u < length unique"
  shows "fold (\<lambda>u r. r[unat (snd (unique ! u)) := of_nat u]) [0..<length unique]
           (replicate (length unique) (0::'c word)) ! unat (snd (unique ! u))
         = of_nat u"
proof -
  have "map (\<lambda>u. unat (snd (unique ! u))) [0..<length unique] = map (unat \<circ> snd) unique"
    by (rule nth_equalityI) simp_all
  then have "distinct (map (\<lambda>u. unat (snd (unique ! u))) [0..<length unique])"
    using assms(1) by simp
  moreover have "u \<in> set [0..<length unique]" using assms(3) by simp
  moreover have "unat (snd (unique ! u)) < length (replicate (length unique) (0::'c word))"
    using assms(2,3) by simp
  ultimately show ?thesis
    by (rule fold_update_distinct [where idx = "\<lambda>u. unat (snd (unique ! u))" and val = of_nat])
qed

lemma remap_codes:
  fixes unique :: "('k \<times> 'c::len word) list" and codes1 :: "'c word list"
  assumes "distinct (map (unat \<circ> snd) unique)"
    and "\<forall>e \<in> set unique. unat (snd e) < length unique"
    and "length unique \<le> 2 ^ LENGTH('c)"
    and "length codes1 = n" and "j < n"
    and "u < length unique" and "snd (unique ! u) = codes1 ! j"
  shows "unat (fold (\<lambda>i cs. cs[i :=
            fold (\<lambda>u r. r[unat (snd (unique ! u)) := of_nat u]) [0..<length unique]
              (replicate (length unique) (0::'c word)) ! unat (cs ! i)]) [0..<n] codes1 ! j) = u"
proof -
  let ?remapping = "fold (\<lambda>u r. r[unat (snd (unique ! u)) := of_nat u]) [0..<length unique]
                      (replicate (length unique) (0::'c word))"
  have "fold (\<lambda>i cs. cs[i := ?remapping ! unat (cs ! i)]) [0..<n] codes1 ! j
        = ?remapping ! unat (codes1 ! j)"
    using fold_update_nth [where g = "\<lambda>i x. ?remapping ! unat x"] assms(4,5) by simp
  also have "\<dots> = of_nat u"
    using remapping_nth [OF assms(1,2,6)] assms(7) by simp
  finally show ?thesis
    using assms(3,6) by (simp add: unat_of_nat_small)
qed

lemma sorted_map_fst:
  fixes xs :: "('a::linorder \<times> 'b::linorder) list"
  shows "sorted xs \<Longrightarrow> sorted (map fst xs)"
proof -
  assume "sorted xs"
  then have "sorted_wrt (\<lambda>x y. fst x \<le> fst y) xs"
    by (rule sorted_wrt_mono_rel [rotated]) (auto simp: less_eq_prod_def)
  then show ?thesis by (simp add: sorted_wrt_map)
qed

lemma distinct_map_sort:
  fixes xs :: "('a::linorder) list"
  shows "distinct (map f xs) \<Longrightarrow> distinct (map f (sort xs))"
  by (simp add: distinct_map)

lemma code_max_less: "code_max TYPE('c::len) sg < 2 ^ LENGTH('c)"
proof -
  have "(2::nat) ^ (LENGTH('c) - 1) \<le> 2 ^ LENGTH('c)" by (rule power_increasing) simp_all
  moreover have "0 < (2::nat) ^ (LENGTH('c) - 1)" "0 < (2::nat) ^ LENGTH('c)" by simp_all
  ultimately have "(2::nat) ^ (LENGTH('c) - 1) - 1 < 2 ^ LENGTH('c)"
    "(2::nat) ^ LENGTH('c) - 1 < 2 ^ LENGTH('c)"
    by linarith+
  then show ?thesis by (simp add: code_max_def)
qed

lemma in_bounds_small:
  fixes c :: "'c::len word"
  assumes "unat c < sz" and "sz \<le> code_max TYPE('c) sg"
  shows "in_bounds sg sz c"
proof -
  have "unat c < code_max TYPE('c) sg" using assms by simp
  then have "sg \<Longrightarrow> unat c < 2 ^ (LENGTH('c) - 1)" by (simp add: code_max_def)
  then show ?thesis using assms(1) by (auto simp: in_bounds_def)
qed

lemma create_remapping_ok:
  "nuniq \<le> code_max TYPE('c) sg \<Longrightarrow> nuniq \<le> size_max \<Longrightarrow>
   create_remapping sg nuniq = Inr (replicate nuniq (0::'c::len word))"
  by (simp add: create_remapping_def)

lemma create_remapping_overflow:
  "code_max TYPE('c) sg < nuniq \<Longrightarrow>
   (create_remapping sg nuniq :: error + 'c::len word list) = Inl Overflow"
  by (simp add: create_remapping_def)

text \<open>The number of entries of the map after the scan.\<close>

lemma create_factor_nuniq:
  assumes "length input = n" and "length codes = n"
    and "fold (create_factor_scan input) [0..<n] ([], codes) = (mapping, codes1)"
  shows "length (sort mapping) = card (set input)"
proof -
  have "scan_inv input n (fold (create_factor_scan input) [0..<n] ([], codes))"
    using assms(1,2) by (intro fold_scan_inv) simp_all
  then have "distinct (map fst mapping)" "set (map fst mapping) = set input"
    using assms(1,3) by (auto simp: scan_inv_def)
  then show ?thesis by (metis distinct_card length_map length_sort)
qed

lemma create_factor_overflow:
  fixes codes :: "'c::len word list" and input :: "('a::linorder) list"
  assumes "length input = n" and "length codes = n"
    and "code_max TYPE('c) sg < card (set input)"
  shows "snd (create_factor sg n input codes) = Inl Overflow"
proof -
  let ?st = "fold (create_factor_scan input) [0..<n] ([], codes)"
  obtain mapping codes1 where st: "?st = (mapping, codes1)" by (cases ?st)
  have "length (sort mapping) = card (set input)"
    using assms(1,2) st by (rule create_factor_nuniq)
  then have "(create_remapping sg (length (sort mapping)) :: error + 'c word list) = Inl Overflow"
    using assms(3) by (simp add: create_remapping_overflow)
  then show ?thesis using st by (simp add: create_factor_def Let_def)
qed

lemma create_factor_result:
  fixes codes :: "'c::len word list" and input :: "('a::linorder) list"
  assumes "length input = n" and "length codes = n" and "n \<le> size_max"
    and cap: "card (set input) \<le> code_max TYPE('c) sg"
  shows "\<exists>codes'. create_factor sg n input codes = (codes', Inr (sorted_list_of_set (set input)))
           \<and> length codes' = n
           \<and> (\<forall>j<n. unat (codes' ! j) < card (set input)
                     \<and> sorted_list_of_set (set input) ! unat (codes' ! j) = input ! j)"
proof -
  let ?st = "fold (create_factor_scan input) [0..<n] ([], codes)"
  obtain mapping codes1 where st: "?st = (mapping, codes1)" by (cases ?st)
  let ?unique = "sort mapping"
  let ?N = "length ?unique"
  let ?remapping = "fold (\<lambda>u r. r[unat (snd (?unique ! u)) := of_nat u]) [0..<?N]
                      (replicate ?N (0::'c word))"
  let ?codes2 = "fold (\<lambda>i cs. cs[i := ?remapping ! unat (cs ! i)]) [0..<n] codes1"
  let ?levels = "map fst ?unique"
  have "scan_inv input n ?st" using assms(1,2) by (intro fold_scan_inv) simp_all
  then have inv: "map snd mapping = map of_nat [0..<length mapping]"
    "distinct (map fst mapping)"
    "set (map fst mapping) = set input"
    "\<forall>j<n. map_of mapping (input ! j) = Some (codes1 ! j)"
    using st assms(1) by (auto simp: scan_inv_def)
  have len1: "length codes1 = n"
    using fold_scan_length [of input "[0..<n]" "([], codes)"] st assms(2) by simp
  have N: "?N = card (set input)"
    using inv(2,3) by (metis distinct_card length_map length_sort)
  have "card (set input) \<le> length input" by (rule card_length)
  then have Nle: "?N \<le> size_max" using N assms(1,3) by simp
  have Ncap: "?N \<le> code_max TYPE('c) sg" using N cap by simp
  have Nlt: "?N < 2 ^ LENGTH('c)"
    using Ncap code_max_less [where 'c = 'c and sg = sg] by simp
  have lv_sorted: "sorted ?levels" by (intro sorted_map_fst) simp
  have lv_distinct: "distinct ?levels" using inv(2) by (rule distinct_map_sort)
  have lv_set: "set ?levels = set input" using inv(3) by simp
  have levels: "?levels = sorted_list_of_set (set input)"
    using lv_sorted lv_distinct lv_set
    by (metis sorted_list_of_set.idem_if_sorted_distinct)
  have out: "map (\<lambda>u. fst (?unique ! u)) [0..<?N] = ?levels"
    by (rule nth_equalityI) simp_all
  have lab: "map (unat \<circ> snd) mapping = [0..<length mapping]"
  proof (rule nth_equalityI)
    show "length (map (unat \<circ> snd) mapping) = length [0..<length mapping]" by simp
    fix i assume "i < length (map (unat \<circ> snd) mapping)"
    then have i: "i < length mapping" by simp
    then have "snd (mapping ! i) = of_nat i"
      using inv(1) by (metis add_0 length_map nth_map nth_upt)
    moreover have "i < 2 ^ LENGTH('c)" using i Nlt by simp
    ultimately show "map (unat \<circ> snd) mapping ! i = [0..<length mapping] ! i"
      using i by (simp add: unat_of_nat_small)
  qed
  have "distinct (map (unat \<circ> snd) mapping)" using lab by simp
  then have d: "distinct (map (unat \<circ> snd) ?unique)" by (rule distinct_map_sort)
  have "set (map (unat \<circ> snd) mapping) = {0..<length mapping}" using lab by simp
  then have b: "\<forall>e \<in> set ?unique. unat (snd e) < ?N" by force
  have mem: "(input ! j, codes1 ! j) \<in> set ?unique" if "j < n" for j
  proof -
    have "(input ! j, codes1 ! j) \<in> set mapping"
      using inv(4) that by (auto dest: map_of_SomeD)
    then show ?thesis by simp
  qed
  have chk1: "list_all (\<lambda>e. in_bounds sg ?N (snd e)) ?unique"
    unfolding list_all_iff using b Ncap by (auto intro: in_bounds_small)
  have chk2: "list_all (\<lambda>i. in_bounds sg ?N (codes1 ! i)) [0..<n]"
    unfolding list_all_iff
  proof
    fix i assume "i \<in> set [0..<n]"
    then have "(input ! i, codes1 ! i) \<in> set ?unique" using mem by simp
    then have "unat (codes1 ! i) < ?N" using b by force
    then show "in_bounds sg ?N (codes1 ! i)" using Ncap by (rule in_bounds_small)
  qed
  have rm: "(create_remapping sg ?N :: error + 'c word list) = Inr (replicate ?N 0)"
    using Ncap Nle by (rule create_remapping_ok)
  have res: "create_factor sg n input codes = (?codes2, Inr ?levels)"
    using st Nle out rm chk1 chk2 by (simp add: create_factor_def as_size_type_ok Let_def)
  have len2: "length ?codes2 = n" using len1 by (simp add: fold_update_length)
  have rt: "unat (?codes2 ! j) < card (set input) \<and> ?levels ! unat (?codes2 ! j) = input ! j"
    if j: "j < n" for j
  proof -
    obtain u where u: "u < ?N" "?unique ! u = (input ! j, codes1 ! j)"
      using mem [OF j] unfolding in_set_conv_nth by blast
    have "?N \<le> 2 ^ LENGTH('c)" using Nlt by simp
    then have "unat (?codes2 ! j) = u"
      using d b len1 j u by (intro remap_codes) simp_all
    then show ?thesis using u N by simp
  qed
  show ?thesis
    using res len2 rt levels by (intro exI [of _ ?codes2]) auto
qed

lemma create_factor_density:
  fixes codes :: "'c::len word list" and input :: "('a::linorder) list"
  assumes "length input = n" and "length codes = n" and "n \<le> size_max"
    and "card (set input) \<le> code_max TYPE('c) sg"
  shows "\<exists>codes' levels. create_factor sg n input codes = (codes', Inr levels)
           \<and> (\<forall>u<length levels. \<exists>i<n. unat (codes' ! i) = u)"
proof -
  let ?levels = "sorted_list_of_set (set input)"
  obtain codes' where cf:
    "create_factor sg n input codes = (codes', Inr ?levels)"
    "\<forall>j<n. unat (codes' ! j) < card (set input) \<and> ?levels ! unat (codes' ! j) = input ! j"
    using create_factor_result [OF assms] by blast
  have "\<exists>i<n. unat (codes' ! i) = u" if u: "u < length ?levels" for u
  proof -
    have "?levels ! u \<in> set ?levels" using u by (rule nth_mem)
    then have "?levels ! u \<in> set input" by simp
    then obtain j where j: "j < n" "input ! j = ?levels ! u"
      using assms(1) by (auto simp: in_set_conv_nth)
    have "unat (codes' ! j) < length ?levels" "?levels ! unat (codes' ! j) = ?levels ! u"
      using cf(2) j by simp_all
    then have "unat (codes' ! j) = u" using u by (simp add: nth_eq_iff_index_eq)
    then show ?thesis using j(1) by blast
  qed
  then show ?thesis using cf(1) by blast
qed

subsection \<open>combine_to_factor\<close>

lemma cmp_less: "cmp inputs l r \<longleftrightarrow> observation inputs l < observation inputs r"
  by (induction inputs) (auto simp: observation_def)

lemma eq_index_eq: "eq_index inputs l r \<longleftrightarrow> observation inputs l = observation inputs r"
  by (induction inputs) (auto simp: observation_def)

text \<open>The ordered map, for a comparator that compares a key \<open>key k\<close> in a linear order.\<close>

lemma map_find_Some:
  fixes key :: "'k \<Rightarrow> 'o::linorder"
  assumes "map_find (\<lambda>a b. key a < key b) m k = Some e"
  shows "e \<in> set m \<and> key (fst e) = key k"
  using assms by (induction m) (auto split: if_splits)

lemma map_find_None:
  fixes key :: "'k \<Rightarrow> 'o::linorder"
  assumes "map_find (\<lambda>a b. key a < key b) m k = None"
    and "sorted_wrt (\<lambda>a b. key (fst a) < key (fst b)) m"
  shows "\<forall>e \<in> set m. key (fst e) \<noteq> key k"
  using assms by (induction m) (fastforce split: if_splits)+

lemma map_insert_set:
  fixes key :: "'k \<Rightarrow> 'o::linorder"
  assumes "\<forall>e \<in> set m. key (fst e) \<noteq> key (fst kv)"
  shows "set (map_insert (\<lambda>a b. key a < key b) m kv) = insert kv (set m)"
  using assms by (induction m) auto

lemma map_insert_length:
  fixes key :: "'k \<Rightarrow> 'o::linorder"
  assumes "\<forall>e \<in> set m. key (fst e) \<noteq> key (fst kv)"
  shows "length (map_insert (\<lambda>a b. key a < key b) m kv) = Suc (length m)"
  using assms by (induction m) auto

lemma map_insert_sorted:
  fixes key :: "'k \<Rightarrow> 'o::linorder"
  assumes "sorted_wrt (\<lambda>a b. key (fst a) < key (fst b)) m"
    and "\<forall>e \<in> set m. key (fst e) \<noteq> key (fst kv)"
  shows "sorted_wrt (\<lambda>a b. key (fst a) < key (fst b)) (map_insert (\<lambda>a b. key a < key b) m kv)"
  using assms
proof (induction m)
  case Nil
  then show ?case by simp
next
  case (Cons e es)
  have ne: "\<forall>x \<in> set es. key (fst x) \<noteq> key (fst kv)" using Cons.prems(2) by simp
  show ?case
  proof (cases "key (fst e) < key (fst kv)")
    case True
    have "sorted_wrt (\<lambda>a b. key (fst a) < key (fst b)) (map_insert (\<lambda>a b. key a < key b) es kv)"
      using Cons by simp
    moreover have "\<forall>x \<in> set (map_insert (\<lambda>a b. key a < key b) es kv). key (fst e) < key (fst x)"
      using Cons.prems(1) True by (auto simp: map_insert_set [OF ne])
    ultimately show ?thesis using True by simp
  next
    case False
    then have "key (fst kv) < key (fst e)" using Cons.prems(2) by fastforce
    then show ?thesis using Cons.prems(1) by fastforce
  qed
qed

lemma cmp_fun: "cmp inputs = (\<lambda>a b. observation inputs a < observation inputs b)"
  by (intro ext) (rule cmp_less)

lemma fold_combine_scan_length:
  "length (snd (fold (combine_scan inputs) xs st)) = length (snd st)"
  by (induction xs arbitrary: st)
     (auto simp: combine_scan_def Let_def split: prod.splits)

lemma combine_scan_inv:
  fixes st :: "(nat \<times> 'c::len word) list \<times> 'c word list"
  assumes "combine_inv inputs m st" and "m < length (snd st)"
  shows "combine_inv inputs (Suc m) (combine_scan inputs m st)"
proof -
  obtain mapping codes where st: "st = (mapping, codes)" by (cases st)
  let ?key = "observation inputs"
  have srt: "sorted_wrt (\<lambda>a b. ?key (fst a) < ?key (fst b)) mapping"
    and c: "\<forall>j<m. \<exists>e \<in> set mapping. ?key (fst e) = ?key j \<and> snd e = codes ! j"
    and d: "\<forall>e \<in> set mapping. fst e < m"
    using assms(1) st by (auto simp: combine_inv_def)
  obtain ps where ps: "set ps = set mapping" "length ps = length mapping"
    "map snd ps = map of_nat [0..<length ps]"
    using assms(1) st by (auto simp: combine_inv_def)
  have mc: "m < length codes" using assms(2) st by simp
  show ?thesis
  proof (cases "map_find (\<lambda>a b. ?key a < ?key b) mapping m")
    case (Some e)
    then have e: "e \<in> set mapping" "?key (fst e) = ?key m"
      using map_find_Some [of ?key mapping m e] by simp_all
    have step: "combine_scan inputs m st = (mapping, codes[m := snd e])"
      using st Some e(2) by (simp add: combine_scan_def cmp_fun eq_index_eq)
    have "\<forall>j<Suc m. \<exists>x \<in> set mapping. ?key (fst x) = ?key j \<and> snd x = codes[m := snd e] ! j"
    proof (intro allI impI)
      fix j assume "j < Suc m"
      then consider "j < m" | "j = m" by linarith
      then show "\<exists>x \<in> set mapping. ?key (fst x) = ?key j \<and> snd x = codes[m := snd e] ! j"
      proof cases
        case 1
        then show ?thesis using c by (simp add: nth_list_update)
      next
        case 2
        then show ?thesis using e mc by auto
      qed
    qed
    moreover have "\<forall>e \<in> set mapping. fst e < Suc m" using d by auto
    ultimately show ?thesis
      using step srt ps by (auto simp: combine_inv_def)
  next
    case None
    let ?alt = "of_nat (length mapping) :: 'c word"
    let ?mapping = "map_insert (\<lambda>a b. ?key a < ?key b) mapping (m, ?alt)"
    have ne: "\<forall>e \<in> set mapping. ?key (fst e) \<noteq> ?key (fst (m, ?alt))"
      using map_find_None [OF None srt] by simp
    have step: "combine_scan inputs m st = (?mapping, codes[m := ?alt])"
      using st None by (simp add: combine_scan_def cmp_fun Let_def)
    have set': "set ?mapping = insert (m, ?alt) (set mapping)"
      using ne by (rule map_insert_set)
    have len': "length ?mapping = Suc (length mapping)"
      using ne by (rule map_insert_length)
    have srt': "sorted_wrt (\<lambda>a b. ?key (fst a) < ?key (fst b)) ?mapping"
      using srt ne by (rule map_insert_sorted)
    have "set (ps @ [(m, ?alt)]) = set ?mapping \<and> length (ps @ [(m, ?alt)]) = length ?mapping
          \<and> map snd (ps @ [(m, ?alt)]) = map of_nat [0..<length (ps @ [(m, ?alt)])]"
      using ps set' len' by simp
    then have b': "\<exists>ps. set ps = set ?mapping \<and> length ps = length ?mapping
                     \<and> map snd ps = map of_nat [0..<length ps]"
      by blast
    have c': "\<forall>j<Suc m. \<exists>x \<in> set ?mapping. ?key (fst x) = ?key j \<and> snd x = codes[m := ?alt] ! j"
    proof (intro allI impI)
      fix j assume "j < Suc m"
      then consider "j < m" | "j = m" by linarith
      then show "\<exists>x \<in> set ?mapping. ?key (fst x) = ?key j \<and> snd x = codes[m := ?alt] ! j"
      proof cases
        case 1
        then obtain x where "x \<in> set mapping" "?key (fst x) = ?key j" "snd x = codes ! j"
          using c by blast
        then show ?thesis using 1 set' by (auto simp: nth_list_update)
      next
        case 2
        then show ?thesis using set' mc by auto
      qed
    qed
    have d': "\<forall>e \<in> set ?mapping. fst e < Suc m" using d set' by auto
    show ?thesis
      unfolding step combine_inv_def prod.case
      using srt' b' c' d' by blast
  qed
qed

lemma fold_combine_inv:
  fixes codes :: "'c::len word list"
  assumes "m \<le> length codes"
  shows "combine_inv inputs m (fold (combine_scan inputs) [0..<m] ([], codes))"
  using assms
proof (induction m)
  case 0
  have "\<exists>ps. set ps = set ([] :: (nat \<times> 'c word) list)
          \<and> length ps = length ([] :: (nat \<times> 'c word) list)
          \<and> map snd ps = map of_nat [0..<length ps]"
    by (rule exI [of _ "[]"]) simp
  then show ?case by (simp add: combine_inv_def)
next
  case (Suc m)
  let ?st = "fold (combine_scan inputs) [0..<m] ([], codes)"
  have "combine_inv inputs m ?st" using Suc by simp
  moreover have "m < length (snd ?st)"
    using Suc.prems by (simp add: fold_combine_scan_length)
  ultimately have "combine_inv inputs (Suc m) (combine_scan inputs m ?st)"
    by (rule combine_scan_inv)
  then show ?case by simp
qed

lemma fold_combine_remap:
  "length outp = length inputs \<Longrightarrow>
   fold (combine_remap inputs unique) us (outp, r)
   = (map (\<lambda>f. outp ! f @ map (\<lambda>u. inputs ! f ! fst (unique ! u)) us) [0..<length inputs],
      fold (\<lambda>u r. r[unat (snd (unique ! u)) := of_nat u]) us r)"
proof (induction us arbitrary: outp r)
  case Nil
  have "map (\<lambda>f. outp ! f) [0..<length outp] = outp" by (rule map_nth)
  then show ?case using Nil by simp
next
  case (Cons a us)
  let ?outp = "map (\<lambda>f. outp ! f @ [inputs ! f ! fst (unique ! a)]) [0..<length inputs]"
  have "fold (combine_remap inputs unique) (a # us) (outp, r)
        = fold (combine_remap inputs unique) us
            (?outp, r[unat (snd (unique ! a)) := of_nat a])"
    by (simp add: combine_remap_def)
  also have "\<dots> = (map (\<lambda>f. ?outp ! f @ map (\<lambda>u. inputs ! f ! fst (unique ! u)) us)
                       [0..<length inputs],
                     fold (\<lambda>u r. r[unat (snd (unique ! u)) := of_nat u]) us
                       (r[unat (snd (unique ! a)) := of_nat a]))"
    by (rule Cons.IH) simp
  also have "map (\<lambda>f. ?outp ! f @ map (\<lambda>u. inputs ! f ! fst (unique ! u)) us) [0..<length inputs]
             = map (\<lambda>f. outp ! f @ map (\<lambda>u. inputs ! f ! fst (unique ! u)) (a # us))
                 [0..<length inputs]"
    by (rule map_cong) simp_all
  finally show ?case by simp
qed

lemma table_rows_columns:
  assumes "0 < k"
  shows "table_rows (map (\<lambda>f. map (g f) [0..<N]) [0..<k])
         = map (\<lambda>u. map (\<lambda>f. g f u) [0..<k]) [0..<N]"
proof -
  have up: "[0..<k] = 0 # [Suc 0..<k]" using assms by (rule upt_conv_Cons)
  have "table_rows (map (\<lambda>f. map (g f) [0..<N]) [0..<k])
        = map (\<lambda>j. map (\<lambda>c. c ! j) (map (\<lambda>f. map (g f) [0..<N]) [0..<k])) [0..<N]"
    unfolding table_rows_def by (subst (1) up) simp
  also have "\<dots> = map (\<lambda>u. map (\<lambda>f. g f u) [0..<k]) [0..<N]"
    by (rule map_cong) auto
  finally show ?thesis .
qed

lemma observation_columns:
  "map (\<lambda>f. inputs ! f ! i) [0..<length inputs] = observation inputs i"
  unfolding observation_def by (rule nth_equalityI) simp_all

text \<open>What the scan of \<open>combine_to_factor\<close> leaves: the sorted map of the distinct
  observations.\<close>

lemma combine_scan_result:
  fixes codes :: "'c::len word list" and inputs :: "('a::linorder) list list"
  assumes "length codes = n"
    and "fold (combine_scan inputs) [0..<n] ([], codes) = (unique, codes1)"
  shows "sorted_wrt (<) (map (observation inputs \<circ> fst) unique)"
    and "set (map (observation inputs \<circ> fst) unique) = observation inputs ` {0..<n}"
    and "length unique = card (observation inputs ` {0..<n})"
    and "length codes1 = n"
    and "\<forall>j<n. \<exists>e \<in> set unique.
           observation inputs (fst e) = observation inputs j \<and> snd e = codes1 ! j"
    and "\<exists>ps. set ps = set unique \<and> length ps = length unique
              \<and> map snd ps = map of_nat [0..<length ps]"
proof -
  let ?key = "observation inputs"
  let ?st = "fold (combine_scan inputs) [0..<n] ([], codes)"
  have "combine_inv inputs n ?st" using assms(1) by (intro fold_combine_inv) simp
  then have srt: "sorted_wrt (\<lambda>a b. ?key (fst a) < ?key (fst b)) unique"
    and c: "\<forall>j<n. \<exists>e \<in> set unique. ?key (fst e) = ?key j \<and> snd e = codes1 ! j"
    and d: "\<forall>e \<in> set unique. fst e < n"
    and b: "\<exists>ps. set ps = set unique \<and> length ps = length unique
                 \<and> map snd ps = map of_nat [0..<length ps]"
    using assms(2) by (auto simp: combine_inv_def)
  show len1: "length codes1 = n"
    using fold_combine_scan_length [of inputs "[0..<n]" "([], codes)"] assms by simp
  show rows_sorted: "sorted_wrt (<) (map (?key \<circ> fst) unique)"
    using srt by (simp add: sorted_wrt_map)
  then have rows_distinct: "distinct (map (?key \<circ> fst) unique)"
    by (simp add: strict_sorted_iff)
  show rows_set: "set (map (?key \<circ> fst) unique) = ?key ` {0..<n}"
  proof
    show "set (map (?key \<circ> fst) unique) \<subseteq> ?key ` {0..<n}" using d by auto
    show "?key ` {0..<n} \<subseteq> set (map (?key \<circ> fst) unique)"
    proof
      fix r assume "r \<in> ?key ` {0..<n}"
      then obtain j where "j < n" "r = ?key j" by auto
      then show "r \<in> set (map (?key \<circ> fst) unique)" using c by force
    qed
  qed
  show "length unique = card (?key ` {0..<n})"
    using rows_distinct rows_set by (metis distinct_card length_map)
  show "\<forall>j<n. \<exists>e \<in> set unique. ?key (fst e) = ?key j \<and> snd e = codes1 ! j" by (rule c)
  show "\<exists>ps. set ps = set unique \<and> length ps = length unique
              \<and> map snd ps = map of_nat [0..<length ps]" by (rule b)
qed

lemma combine_overflow:
  fixes codes :: "'c::len word list" and inputs :: "('a::linorder) list list"
  assumes "2 \<le> length inputs" and "length inputs \<le> size_max" and "length codes = n"
    and "code_max TYPE('c) sg < card (observation inputs ` {0..<n})"
  shows "snd (combine_to_factor sg n inputs codes) = Inl Overflow"
proof -
  let ?st = "fold (combine_scan inputs) [0..<n] ([], codes)"
  obtain unique codes1 where st: "?st = (unique, codes1)" by (cases ?st)
  have "length unique = card (observation inputs ` {0..<n})"
    using assms(3) st by (rule combine_scan_result)
  then have "(create_remapping sg (length unique) :: error + 'c word list) = Inl Overflow"
    using assms(4) by (simp add: create_remapping_overflow)
  then show ?thesis
    using assms(1,2) st by (auto simp: combine_to_factor_def as_size_type_ok Let_def)
qed

lemma combine_result:
  fixes codes :: "'c::len word list" and inputs :: "('a::linorder) list list"
  assumes "2 \<le> length inputs" and "length inputs \<le> size_max"
    and "n \<le> size_max" and "length codes = n"
    and cap: "card (observation inputs ` {0..<n}) \<le> code_max TYPE('c) sg"
  shows "\<exists>codes' table. combine_to_factor sg n inputs codes = (codes', Inr table)
           \<and> length codes' = n \<and> length table = length inputs
           \<and> (\<forall>col \<in> set table. length col = card (observation inputs ` {0..<n}))
           \<and> table_rows table = sorted_list_of_set (observation inputs ` {0..<n})
           \<and> (\<forall>j<n. unat (codes' ! j) < card (observation inputs ` {0..<n})
                     \<and> (\<forall>f<length inputs. table ! f ! unat (codes' ! j) = inputs ! f ! j))"
proof -
  let ?k = "length inputs"
  let ?key = "observation inputs"
  let ?st = "fold (combine_scan inputs) [0..<n] ([], codes)"
  obtain unique codes1 where st: "?st = (unique, codes1)" by (cases ?st)
  let ?N = "length unique"
  let ?remapping = "fold (\<lambda>u r. r[unat (snd (unique ! u)) := of_nat u]) [0..<?N]
                      (replicate ?N (0::'c word))"
  let ?codes2 = "fold (\<lambda>i cs. cs[i := ?remapping ! unat (cs ! i)]) [0..<n] codes1"
  let ?table = "map (\<lambda>f. map (\<lambda>u. inputs ! f ! fst (unique ! u)) [0..<?N]) [0..<?k]"
  note sr = combine_scan_result [OF assms(4) st]
  have rows_sorted: "sorted_wrt (<) (map (?key \<circ> fst) unique)" by (rule sr(1))
  then have rows_distinct: "distinct (map (?key \<circ> fst) unique)"
    and rows_sorted': "sorted (map (?key \<circ> fst) unique)"
    by (simp_all add: strict_sorted_iff)
  have rows_set: "set (map (?key \<circ> fst) unique) = ?key ` {0..<n}" by (rule sr(2))
  have N: "?N = card (?key ` {0..<n})" by (rule sr(3))
  have len1: "length codes1 = n" by (rule sr(4))
  have c: "\<forall>j<n. \<exists>e \<in> set unique. ?key (fst e) = ?key j \<and> snd e = codes1 ! j" by (rule sr(5))
  have "card (?key ` {0..<n}) \<le> card {0..<n}" by (intro card_image_le) simp
  then have Nle: "?N \<le> size_max" using N assms(3) by simp
  have Ncap: "?N \<le> code_max TYPE('c) sg" using N cap by simp
  have Nlt: "?N < 2 ^ LENGTH('c)"
    using Ncap code_max_less [where 'c = 'c and sg = sg] by simp
  have rows: "table_rows ?table = map (?key \<circ> fst) unique"
  proof -
    have "table_rows ?table
          = map (\<lambda>u. map (\<lambda>f. inputs ! f ! fst (unique ! u)) [0..<?k]) [0..<?N]"
      using assms(1) by (intro table_rows_columns) linarith
    also have "\<dots> = map (\<lambda>u. ?key (fst (unique ! u))) [0..<?N]"
      by (simp only: observation_columns)
    also have "\<dots> = map (?key \<circ> fst) unique"
      by (rule nth_equalityI) simp_all
    finally show ?thesis .
  qed
  have rows_eq: "table_rows ?table = sorted_list_of_set (?key ` {0..<n})"
    using rows rows_sorted' rows_distinct rows_set
    by (metis sorted_list_of_set.idem_if_sorted_distinct)
  have fr: "fold (combine_remap inputs unique) [0..<?N] (replicate ?k [], replicate ?N (0::'c word))
            = (?table, ?remapping)"
    by (subst fold_combine_remap) simp_all
  obtain ps where ps: "set ps = set unique" "length ps = length unique"
    "map snd ps = map of_nat [0..<length ps]"
    using sr(6) by blast
  have lab: "map (unat \<circ> snd) ps = [0..<length ps]"
  proof (rule nth_equalityI)
    show "length (map (unat \<circ> snd) ps) = length [0..<length ps]" by simp
    fix i assume "i < length (map (unat \<circ> snd) ps)"
    then have i: "i < length ps" by simp
    then have "snd (ps ! i) = of_nat i"
      using ps(3) by (metis add_0 length_map nth_map nth_upt)
    moreover have "i < 2 ^ LENGTH('c)" using i Nlt ps(2) by simp
    ultimately show "map (unat \<circ> snd) ps ! i = [0..<length ps] ! i"
      using i by (simp add: unat_of_nat_small)
  qed
  then have "distinct (map (unat \<circ> snd) ps)" by simp
  then have "inj_on (unat \<circ> snd) (set unique)"
    using ps(1) by (simp add: distinct_map)
  moreover have "distinct unique"
    using rows_distinct by (simp add: distinct_map)
  ultimately have dl: "distinct (map (unat \<circ> snd) unique)"
    by (simp add: distinct_map)
  have "set (map (unat \<circ> snd) ps) = {0..<length ps}" using lab by simp
  then have bl: "\<forall>e \<in> set unique. unat (snd e) < ?N"
    using ps(1,2) by force
  have chk1: "list_all (\<lambda>e. in_bounds sg ?N (snd e)) unique"
    unfolding list_all_iff using bl Ncap by (auto intro: in_bounds_small)
  have chk2: "list_all (\<lambda>i. in_bounds sg ?N (codes1 ! i)) [0..<n]"
    unfolding list_all_iff
  proof
    fix i assume "i \<in> set [0..<n]"
    then obtain e where "e \<in> set unique" "snd e = codes1 ! i" using c by force
    then have "unat (codes1 ! i) < ?N" using bl by force
    then show "in_bounds sg ?N (codes1 ! i)" using Ncap by (rule in_bounds_small)
  qed
  have rm: "(create_remapping sg ?N :: error + 'c word list) = Inr (replicate ?N 0)"
    using Ncap Nle by (rule create_remapping_ok)
  have res: "combine_to_factor sg n inputs codes = (?codes2, Inr ?table)"
    using assms(1,2) st fr rm chk1 chk2
    by (auto simp: combine_to_factor_def as_size_type_ok Let_def)
  have len2: "length ?codes2 = n" using len1 by (simp add: fold_update_length)
  have cols: "\<forall>col \<in> set ?table. length col = card (?key ` {0..<n})"
    using N by auto
  have rt: "unat (?codes2 ! j) < card (?key ` {0..<n})
            \<and> (\<forall>f<?k. ?table ! f ! unat (?codes2 ! j) = inputs ! f ! j)"
    if j: "j < n" for j
  proof -
    obtain e where e: "e \<in> set unique" "?key (fst e) = ?key j" "snd e = codes1 ! j"
      using c j by blast
    then obtain u where u: "u < ?N" "unique ! u = e"
      unfolding in_set_conv_nth by blast
    have "?N \<le> 2 ^ LENGTH('c)" using Nlt by simp
    then have cu: "unat (?codes2 ! j) = u"
      using dl bl len1 j u e(3) by (intro remap_codes) simp_all
    have "?table ! f ! u = inputs ! f ! j" if f: "f < ?k" for f
    proof -
      have "?table ! f ! u = inputs ! f ! fst e" using f u by simp
      also have "\<dots> = ?key (fst e) ! f" using f by (simp add: observation_def)
      also have "\<dots> = inputs ! f ! j" using e(2) f by (simp add: observation_def)
      finally show ?thesis .
    qed
    then show ?thesis using cu u N by simp
  qed
  have lt: "length ?table = ?k" by simp
  show ?thesis
    using res len2 lt cols rows_eq rt
    by (intro exI [of _ ?codes2] exI [of _ ?table] conjI) (simp_all only:, blast+)
qed

lemma table_rows_single: "table_rows [col] = map (\<lambda>v. [v]) col"
  unfolding table_rows_def by (rule nth_equalityI) simp_all

lemma combine_single:
  "combine_to_factor sg n [x] codes
   = (case create_factor sg n x codes of
        (codes', Inl e) \<Rightarrow> (codes', Inl e)
      | (codes', Inr levels) \<Rightarrow> (codes', Inr [levels]))"
proof -
  have "(1::nat) \<le> size_max" by (simp add: size_max_def)
  then show ?thesis
    by (simp add: combine_to_factor_def as_size_type_ok split: prod.splits sum.splits)
qed

lemma combine_empty: "combine_to_factor sg n [] codes = (fill_n codes n 0, Inr [])"
  by (simp add: combine_to_factor_def as_size_type_def)

lemma observation_single:
  "length x = n \<Longrightarrow> observation [x] ` {0..<n} = (\<lambda>v. [v]) ` set x"
  by (auto simp: observation_def set_conv_nth image_iff)

lemma card_observation_single:
  assumes "length x = n"
  shows "card (observation [x] ` {0..<n}) = card (set x)"
proof -
  have "inj_on (\<lambda>v. [v]) (set x)" by (simp add: inj_on_def)
  then show ?thesis using assms by (simp add: observation_single card_image)
qed

text \<open>With at least one variable and more distinct combinations than \<open>Code_\<close> has values
  from zero, the sizing of the remapping table fails.\<close>

lemma combine_overflow_all:
  fixes codes :: "'c::len word list" and inputs :: "('a::linorder) list list"
  assumes "inputs \<noteq> []" and "length inputs \<le> size_max" and "length codes = n"
    and "\<forall>col \<in> set inputs. length col = n"
    and "code_max TYPE('c) sg < card (observation inputs ` {0..<n})"
  shows "snd (combine_to_factor sg n inputs codes) = Inl Overflow"
proof (cases "length inputs = 1")
  case True
  then obtain x where inp: "inputs = [x]" by (cases inputs) auto
  have lx: "length x = n" using assms(4) inp by simp
  have "code_max TYPE('c) sg < card (set x)"
    using assms(5) inp card_observation_single [OF lx] by simp
  then have "snd (create_factor sg n x codes) = Inl Overflow"
    using lx assms(3) by (intro create_factor_overflow)
  then show ?thesis
    using inp by (cases "create_factor sg n x codes") (simp add: combine_single)
next
  case False
  moreover have "length inputs \<noteq> 0" using assms(1) by simp
  ultimately have "2 \<le> length inputs" by linarith
  then show ?thesis using assms(2,3,5) by (rule combine_overflow)
qed

text \<open>Every call of \<open>combine_to_factor\<close> on well-formed arguments whose distinct combinations
  can be counted in \<open>Code_\<close> returns a table with sorted and distinct rows; the codes point at
  the observations' rows and every row is pointed at.\<close>

lemma combine_result_all:
  fixes codes :: "'c::len word list" and inputs :: "('a::linorder) list list"
  assumes "length inputs \<le> size_max" and "n \<le> size_max" and "length codes = n"
    and "\<forall>col \<in> set inputs. length col = n"
    and cap: "inputs = [] \<or> card (observation inputs ` {0..<n}) \<le> code_max TYPE('c) sg"
  shows "\<exists>codes' table. combine_to_factor sg n inputs codes = (codes', Inr table)
           \<and> length codes' = n \<and> length table = length inputs
           \<and> sorted_wrt (<) (table_rows table)
           \<and> (\<forall>col \<in> set table. length col = length (table_rows table))
           \<and> (\<forall>j<n. \<forall>f<length inputs. unat (codes' ! j) < length (table ! f)
                     \<and> table ! f ! unat (codes' ! j) = inputs ! f ! j)
           \<and> (\<forall>u<length (table_rows table). \<exists>j<n. unat (codes' ! j) = u)"
proof -
  let ?k = "length inputs"
  let ?obs = "observation inputs ` {0..<n}"
  consider "?k = 0" | "?k = 1" | "2 \<le> ?k" by linarith
  then show ?thesis
  proof cases
    case 1
    then show ?thesis
      using assms(3) by (simp add: combine_empty fill_n_def table_rows_def)
  next
    case 2
    then obtain x where inp: "inputs = [x]" by (cases inputs) auto
    have lx: "length x = n" using assms(4) inp by simp
    have co: "card ?obs = card (set x)"
      using inp card_observation_single [OF lx] by simp
    then have capx: "card (set x) \<le> code_max TYPE('c) sg" using cap inp by simp
    obtain codes' where cf:
      "create_factor sg n x codes = (codes', Inr (sorted_list_of_set (set x)))"
      "length codes' = n"
      "\<forall>j<n. unat (codes' ! j) < card (set x)
              \<and> sorted_list_of_set (set x) ! unat (codes' ! j) = x ! j"
      using create_factor_result [OF lx assms(3,2) capx] by blast
    let ?levels = "sorted_list_of_set (set x)"
    have res: "combine_to_factor sg n inputs codes = (codes', Inr [?levels])"
      using inp cf(1) by (simp add: combine_single)
    have ll: "length ?levels = card (set x)" by simp
    have "inj_on (\<lambda>v. [v]) (set ?levels)" by (simp add: inj_on_def)
    then have srt: "sorted_wrt (<) (table_rows [?levels])"
      unfolding table_rows_single
      by (simp add: sorted_wrt_map strict_sorted_iff [symmetric] del: sorted_list_of_set.set_sorted_key_list_of_set)
    have rt: "\<forall>j<n. \<forall>f<?k. unat (codes' ! j) < length ([?levels] ! f)
                   \<and> [?levels] ! f ! unat (codes' ! j) = inputs ! f ! j"
      using cf(3) inp by simp
    have dn: "\<forall>u<length (table_rows [?levels]). \<exists>j<n. unat (codes' ! j) = u"
    proof (intro allI impI)
      fix u assume "u < length (table_rows [?levels])"
      then have u: "u < length ?levels" by (simp add: table_rows_single)
      then have "?levels ! u \<in> set ?levels" by (rule nth_mem)
      then have "?levels ! u \<in> set x" by simp
      then obtain j where j: "j < n" "x ! j = ?levels ! u"
        using lx by (auto simp: in_set_conv_nth)
      have "unat (codes' ! j) < length ?levels"
        "?levels ! unat (codes' ! j) = ?levels ! u"
        using cf(3) j by simp_all
      then have "unat (codes' ! j) = u"
        using u by (simp add: nth_eq_iff_index_eq)
      then show "\<exists>j<n. unat (codes' ! j) = u" using j(1) by blast
    qed
    have cols: "\<forall>col \<in> set [?levels]. length col = length (table_rows [?levels])"
      by (simp add: table_rows_single)
    show ?thesis
      using res cf(2) srt cols rt dn inp
      by (intro exI [of _ codes'] exI [of _ "[?levels]"] conjI impI) simp_all
  next
    case 3
    then have capn: "card ?obs \<le> code_max TYPE('c) sg" using cap by auto
    obtain codes' table where r:
      "combine_to_factor sg n inputs codes = (codes', Inr table)"
      "length codes' = n" "length table = ?k"
      "\<forall>col \<in> set table. length col = card ?obs"
      "table_rows table = sorted_list_of_set ?obs"
      "\<forall>j<n. unat (codes' ! j) < card ?obs
              \<and> (\<forall>f<?k. table ! f ! unat (codes' ! j) = inputs ! f ! j)"
      using combine_result [OF 3 assms(1,2,3) capn] by blast
    have fin: "finite ?obs" by simp
    have lr: "length (table_rows table) = card ?obs" using r(5) by simp
    have srt: "sorted_wrt (<) (table_rows table)"
      using r(5) by (simp add: strict_sorted_iff del: sorted_list_of_set.set_sorted_key_list_of_set)
    have dist: "distinct (table_rows table)" using r(5) by simp
    have row: "table_rows table ! c = map (\<lambda>col. col ! c) table" if "c < card ?obs" for c
    proof -
      obtain col rest where t: "table = col # rest" using r(3) 3 by (cases table) auto
      then have "length col = card ?obs" using r(4) by simp
      then show ?thesis using that t by (simp add: table_rows_def)
    qed
    have dn: "\<forall>u<length (table_rows table). \<exists>j<n. unat (codes' ! j) = u"
    proof (intro allI impI)
      fix u assume u: "u < length (table_rows table)"
      then have "table_rows table ! u \<in> set (table_rows table)" by (rule nth_mem)
      then have "table_rows table ! u \<in> ?obs" using r(5) fin by simp
      then obtain j where j: "j < n" "table_rows table ! u = observation inputs j" by auto
      have cj: "unat (codes' ! j) < card ?obs"
        and vj: "\<forall>f<?k. table ! f ! unat (codes' ! j) = inputs ! f ! j"
        using r(6) j(1) by simp_all
      have "table_rows table ! unat (codes' ! j) = map (\<lambda>col. col ! unat (codes' ! j)) table"
        using cj by (rule row)
      also have "\<dots> = observation inputs j"
        unfolding observation_def using vj r(3) by (intro nth_equalityI) simp_all
      finally have "table_rows table ! unat (codes' ! j) = table_rows table ! u"
        using j(2) by simp
      then have "unat (codes' ! j) = u"
        using dist cj u lr by (simp add: nth_eq_iff_index_eq)
      then show "\<exists>j<n. unat (codes' ! j) = u" using j(1) by blast
    qed
    have rt: "\<forall>j<n. \<forall>f<?k. unat (codes' ! j) < length (table ! f)
                   \<and> table ! f ! unat (codes' ! j) = inputs ! f ! j"
      using r(3,4,6) by simp
    show ?thesis
      using r(1,2,3,4) lr srt dn rt
      by (intro exI [of _ codes'] exI [of _ table] conjI impI) simp_all
  qed
qed

text \<open>A call that returns a table has counted its combinations in \<open>Code_\<close>.\<close>

lemma combine_returned_cap:
  fixes codes :: "'c::len word list" and inputs :: "('a::linorder) list list"
  assumes "length codes = n" and "\<forall>col \<in> set inputs. length col = n"
    and "snd (combine_to_factor sg n inputs codes) = Inr table"
  shows "length inputs \<le> size_max
         \<and> (inputs = [] \<or> card (observation inputs ` {0..<n}) \<le> code_max TYPE('c) sg)"
proof -
  have k: "length inputs \<le> size_max"
    using assms(3) by (auto simp: combine_to_factor_def as_size_type_def Let_def split: if_splits)
  have "card (observation inputs ` {0..<n}) \<le> code_max TYPE('c) sg" if "inputs \<noteq> []"
  proof (rule ccontr)
    assume "\<not> card (observation inputs ` {0..<n}) \<le> code_max TYPE('c) sg"
    then have "code_max TYPE('c) sg < card (observation inputs ` {0..<n})" by simp
    then have "snd (combine_to_factor sg n inputs codes) = Inl Overflow"
      using that k assms(1,2) by (intro combine_overflow_all)
    then show False using assms(3) by simp
  qed
  then show ?thesis using k by blast
qed

lemma create_factor_returned_cap:
  fixes codes :: "'c::len word list" and input :: "('a::linorder) list"
  assumes "length input = n" and "length codes = n"
    and "snd (create_factor sg n input codes) = Inr levels"
  shows "card (set input) \<le> code_max TYPE('c) sg"
proof (rule ccontr)
  assume "\<not> card (set input) \<le> code_max TYPE('c) sg"
  then have "code_max TYPE('c) sg < card (set input)" by simp
  then have "snd (create_factor sg n input codes) = Inl Overflow"
    using assms(1,2) by (intro create_factor_overflow)
  then show False using assms(3) by simp
qed

subsection \<open>Returned tables and codes of combine_to_factor_unused\<close>

text \<open>A call that returns a table has passed the checks of the sizes, and with two variables
  or more it has divided by no zero.\<close>

lemma unused_returned_sizes:
  fixes codes :: "'c::len word list" and inputs :: "('i::len word list \<times> nat) list"
  assumes "snd (combine_to_factor_unused max_size n inputs codes) = Inr table"
    and "prod_list (map snd inputs) < 2 ^ LENGTH('c)"
  shows "length inputs \<le> size_max"
    and "2 \<le> length inputs \<longrightarrow> (\<forall>c \<in> set (map snd inputs). 0 < c)"
    and "inputs = [] \<or> prod_list (map snd inputs) \<le> size_max"
    and "inputs = [] \<or> prod_list (map snd inputs) \<le> max_size"
proof -
  let ?k = "length inputs"
  let ?P = "prod_list (map snd inputs)"
  show ksz: "?k \<le> size_max"
    using assms(1)
    by (auto simp: combine_to_factor_unused_def as_size_type_def Let_def split: if_splits)
  show pos: "2 \<le> ?k \<longrightarrow> (\<forall>c \<in> set (map snd inputs). 0 < c)"
  proof
    assume k2: "2 \<le> ?k"
    have "0 \<notin> set (map snd inputs)"
      using unused_zero_cardinality_never_returns [OF k2, of max_size n codes table] assms(1)
      by blast
    then show "\<forall>c \<in> set (map snd inputs). 0 < c" by (metis neq0_conv)
  qed
  have "?P \<le> size_max \<and> ?P \<le> max_size" if ne: "inputs \<noteq> []"
  proof (cases "?k = 1")
    case True
    then obtain a where "inputs = [a]" by (cases inputs) auto
    then show ?thesis
      using assms(1)
      by (auto simp: combine_to_factor_unused_def as_size_type_def Let_def size_max_def
          split: if_splits)
  next
    case False
    moreover have "?k \<noteq> 0" using ne by simp
    ultimately have k2: "2 \<le> ?k" by linarith
    then have pos': "\<forall>c \<in> set (map snd inputs). 0 < c" using pos by simp
    let ?l = "?k - 1"
    let ?c = "snd (inputs ! ?l)"
    let ?codes0 = "copy_n (fst (inputs ! ?l)) n codes"
    have l: "?l < ?k" "Suc ?l = ?k" using k2 by simp_all
    have dr: "drop ?l inputs = [inputs ! ?l]"
      using drop_Suc_step [OF l(1)] l(2) by simp
    have "?c \<le> ?P"
      using prod_list_nth_le [OF pos', of ?l] l(1) by simp
    then have uc: "unat (of_nat ?c :: 'c word) = ?c"
      using assms(2) by (intro unat_of_nat_small) simp
    obtain cs' nc where cl: "code_loop n inputs ?l (of_nat ?c :: 'c word) ?codes0 = (cs', Inr nc)"
      and cast: "unat nc \<le> size_max"
      and tl: "table_loop max_size inputs nc ?k nc 1 (replicate ?k []) = Inr table"
      using assms(1) k2 ksz
      by (auto simp: combine_to_factor_unused_def as_size_type_ok Let_def cast_size_def
          split: prod.splits sum.splits if_splits)
    have "table_loop max_size inputs nc (Suc ?l) nc 1 (replicate ?k []) = Inr table"
      using tl l(2) by simp
    then have res: "unat nc \<le> max_size" by (rule table_loop_Inr_reserve)
    have "unat nc = prod_list (map snd (take ?l inputs)) * unat (of_nat ?c :: 'c word)"
      using cl l(1) by (intro code_loop_result) auto
    also have "\<dots> = prod_list (map snd (take ?l inputs)) * prod_list (map snd (drop ?l inputs))"
      using uc dr by simp
    also have "\<dots> = ?P" by (rule prod_list_take_drop)
    finally show ?thesis using cast res by simp
  qed
  then show "inputs = [] \<or> ?P \<le> size_max" "inputs = [] \<or> ?P \<le> max_size" by blast+
qed

lemma unused_returned_table:
  fixes codes :: "'c::len word list" and inputs :: "('i::len word list \<times> nat) list"
  assumes "snd (combine_to_factor_unused max_size n inputs codes) = Inr table"
    and "prod_list (map snd inputs) < 2 ^ LENGTH('c)"
  shows "table = map (\<lambda>f. map of_nat (cartesian_column (map snd inputs) f)) [0..<length inputs]"
proof -
  note sz = unused_returned_sizes [OF assms]
  have "snd (combine_to_factor_unused max_size n inputs codes)
        = Inr (map (\<lambda>f. map of_nat (cartesian_column (map snd inputs) f)) [0..<length inputs])"
    using sz(1,2) assms(2) sz(3,4) by (rule unused_table)
  then show ?thesis using assms(1) by simp
qed

text \<open>The rows of the table of all combinations, with the levels converted to \<open>Input_\<close>.\<close>

lemma converted_rows:
  assumes "cs \<noteq> []"
  shows "table_rows (map (\<lambda>f. map of_nat (cartesian_column cs f) :: 'i::len word list)
           [0..<length cs])
         = product_lists (map (\<lambda>c. map of_nat [0..<c]) cs)"
proof -
  let ?table = "map (cartesian_column cs) [0..<length cs]"
  let ?w = "of_nat :: nat \<Rightarrow> 'i word"
  have hd: "hd ?table = cartesian_column cs 0"
    using assms by (simp add: hd_map upt_conv_Cons)
  have cols: "\<forall>col \<in> set ?table. length col = length (hd ?table)"
    unfolding hd by auto
  have "map (\<lambda>f. map ?w (cartesian_column cs f)) [0..<length cs] = map (map ?w) ?table"
    by simp
  then have "table_rows (map (\<lambda>f. map ?w (cartesian_column cs f)) [0..<length cs])
             = map (map ?w) (table_rows ?table)"
    using table_rows_map [OF cols, of ?w] by (simp only:)
  also have "table_rows ?table = map (cartesian_row cs) [0..<prod_list cs]"
    using assms by (rule table_rows_cartesian)
  also have "\<dots> = product_lists (map (\<lambda>c. [0..<c]) cs)"
    by (simp only: product_lists_rows)
  also have "map (map ?w) (product_lists (map (\<lambda>c. [0..<c]) cs))
             = product_lists (map (\<lambda>c. map ?w [0..<c]) cs)"
    by (simp add: product_lists_map comp_def)
  finally show ?thesis .
qed

lemma converted_rows_strict_sorted:
  assumes "\<forall>c \<in> set cs. c \<le> 2 ^ LENGTH('i)"
  shows "sorted_wrt (<) (table_rows (map (\<lambda>f. map of_nat (cartesian_column cs f) :: 'i::len word list)
           [0..<length cs]))"
proof (cases "cs = []")
  case True
  then show ?thesis by (simp add: table_rows_def)
next
  case False
  have "sorted_wrt (<) (product_lists (map (\<lambda>c. map of_nat [0..<c] :: 'i word list) cs))"
    using assms by (intro product_lists_strict_sorted) (auto intro: of_nat_upt_strict_sorted)
  then show ?thesis by (simp only: converted_rows [OF False])
qed

lemma unused_round_trip:
  fixes codes :: "'c::len word list" and inputs :: "('i::len word list \<times> nat) list"
  assumes "length codes = n"
    and "\<forall>(vals, c) \<in> set inputs. length vals = n \<and> (\<forall>i<n. unat (vals ! i) < c)"
    and "prod_list (map snd inputs) < 2 ^ LENGTH('c)"
    and "snd (combine_to_factor_unused max_size n inputs codes) = Inr table"
    and "i < n"
  shows "\<forall>f<length inputs.
           unat (fst (combine_to_factor_unused max_size n inputs codes) ! i) < length (table ! f)
           \<and> table ! f ! unat (fst (combine_to_factor_unused max_size n inputs codes) ! i)
             = fst (inputs ! f) ! i"
proof -
  let ?cs = "map snd inputs"
  let ?table = "map (\<lambda>f. map of_nat (cartesian_column ?cs f) :: 'i word list) [0..<length inputs]"
  let ?ds = "digits_at inputs i"
  let ?code = "unat (fst (combine_to_factor_unused max_size n inputs codes) ! i)"
  note sz = unused_returned_sizes [OF assms(4,3)]
  have t: "table = ?table" using assms(4,3) by (rule unused_returned_table)
  have "length inputs = 1 \<longrightarrow> prod_list ?cs \<le> size_max \<and> prod_list ?cs \<le> max_size"
    using sz(3,4) by auto
  then have code: "?code = mixed_radix ?ds"
    using sz(1) assms(1,2,3,5) by (intro unused_codes_formula) simp_all
  have rng: "\<forall>(v, c) \<in> set ?ds. v < c"
    using assms(2,5) by (auto simp: digits_at_def)
  have sn: "map snd ?ds = ?cs" by (simp add: digits_at_def case_prod_beta comp_def)
  have lt: "mixed_radix ?ds < prod_list ?cs"
    using mixed_radix_less [OF rng] sn by simp
  have "?code < length (?table ! f) \<and> ?table ! f ! ?code = fst (inputs ! f) ! i"
    if f: "f < length inputs" for f
  proof -
    have "(mixed_radix ?ds div prod_list (drop (Suc f) ?cs)) mod (?cs ! f)
          = (mixed_radix ?ds div prod_list (drop (Suc f) (map snd ?ds))) mod snd (?ds ! f)"
    proof -
      have "snd (?ds ! f) = ?cs ! f" using f by (simp add: digits_at_def case_prod_beta)
      then show ?thesis by (simp only: sn)
    qed
    also have "\<dots> = fst (?ds ! f)"
      using rng f by (intro mixed_radix_digit) (simp_all add: digits_at_def)
    also have "\<dots> = unat (fst (inputs ! f) ! i)"
      using f by (simp add: digits_at_def case_prod_beta)
    finally have "?table ! f ! ?code = of_nat (unat (fst (inputs ! f) ! i))"
      using f lt code by (simp add: cartesian_column_def)
    then show ?thesis using f lt code by simp
  qed
  then show ?thesis using t by blast
qed

lemma iota_nth:
  "i < m \<Longrightarrow> (iota m v :: 'i::len word list) ! i = of_nat (unat (v + of_nat i))"
proof (induction m arbitrary: v i)
  case 0
  then show ?case by simp
next
  case (Suc m)
  show ?case
  proof (cases i)
    case 0
    then show ?thesis by simp
  next
    case (Suc i')
    then have "i' < m" using Suc.prems by simp
    then have "(iota m (v + 1) :: 'i word list) ! i' = of_nat (unat (v + 1 + of_nat i'))"
      by (rule Suc.IH)
    then show ?thesis using Suc by (simp add: add.assoc)
  qed
qed

lemma iota_length [simp]: "length (iota m v) = m"
  by (induction m arbitrary: v) auto

lemma unat_8_less: "unat (w :: 8 word) < 256"
  using unsigned_less [of w, where 'a = nat] by simp

lemma iota_numeral: "iota (numeral k) v = of_nat (unat v) # iota (pred_numeral k) (v + 1)"
  by (simp add: numeral_eq_Suc)

lemma replicate_numeral: "replicate (numeral k) x = x # replicate (pred_numeral k) x"
  by (simp add: numeral_eq_Suc)

lemmas observed_eval =
  create_factor_def create_factor_scan_def combine_to_factor_def combine_scan_def
  combine_remap_def create_remapping_def code_max_def in_bounds_def as_size_type_def
  size_max_def upt_conv_Cons Let_def less_eq_prod_def

subsection \<open>The scenarios of the specification\<close>

lemma scenario_B:
  "create_factor False 4 [10, 30, 20, 10 :: nat] [0, 0, 0, 0 :: 8 word]
   = ([0, 2, 1, 0], Inr [10, 20, 30])"
  by (simp add: observed_eval)

lemma scenario_A:
  "combine_to_factor False 4 [[2, 1, 2, 3 :: nat], [1, 1, 2, 1]] [0, 0, 0, 0 :: 8 word]
   = ([1, 0, 2, 3], Inr [[1, 2, 2, 3], [1, 1, 2, 1]])"
  by (simp add: observed_eval)

lemma scenario_C:
  "combine_to_factor_unused max_size 3 [([0, 1, 0 :: 8 word], 2), ([2, 0, 1], 3)] [0, 0, 0 :: 8 word]
   = (if max_size < 6 then ([2, 3, 1], Inl LengthError)
      else ([2, 3, 1], Inr [[0, 0, 0, 1, 1, 1], [0, 1, 2, 0, 1, 2]]))"
  by (simp add: unused_eval upt_conv_Cons iota_numeral replicate_numeral)

text \<open>Calls outside the hypotheses of the claims: a product of cardinalities that fits
  \<open>Code_\<close> and not \<open>std::size_t\<close>, a last cardinality that does not fit \<open>Code_\<close>, and a
  cardinality that does not fit \<open>Input_\<close>.\<close>

lemma unused_size_cast_fails:
  "combine_to_factor_unused max_size 0 [([] :: 8 word list, 2 ^ 33), ([], 2 ^ 32)]
     ([] :: 128 word list)
   = ([], Inl Overflow)"
  by (simp add: unused_eval)

lemma unused_truncated_cardinality:
  "combine_to_factor_unused 2 0 [([] :: 16 word list, 2), ([], 257)] ([] :: 8 word list)
   = ([], Inr [[0, 1], [0]])"
  by (simp add: unused_eval upt_conv_Cons iota_numeral replicate_numeral)

subsection \<open>The full table and the range of the unchecked arithmetic\<close>

lemma unat_of_nat_upt:
  assumes "c \<le> 2 ^ LENGTH('i)"
  shows "map unat (map (of_nat :: nat \<Rightarrow> 'i::len word) [0..<c]) = [0..<c]"
  using assms by (intro nth_equalityI) (simp_all add: unat_of_nat_small)

text \<open>
  Cartesian completeness away from the division by a zero cardinality: with one variable, or
  with several variables of positive cardinalities, when the product of the cardinalities
  is representable in \<open>Code_\<close> and in \<open>std::size_t\<close> and is at most \<open>max_size\<close>, and every
  level is representable in \<open>Input_\<close>, the call returns the table of all combinations of
  levels, each once, in lexicographic order.
\<close>

lemma unused_cartesian_complete:
  fixes codes :: "'c::len word list" and inputs :: "('i::len word list \<times> nat) list"
  assumes "1 \<le> length inputs" and "length inputs \<le> size_max"
    and "2 \<le> length inputs \<longrightarrow> (\<forall>c \<in> set (map snd inputs). 0 < c)"
    and "prod_list (map snd inputs) < 2 ^ LENGTH('c)"
    and "\<forall>c \<in> set (map snd inputs). c \<le> 2 ^ LENGTH('i)"
    and "prod_list (map snd inputs) \<le> size_max"
    and "prod_list (map snd inputs) \<le> max_size"
  shows "\<exists>table. snd (combine_to_factor_unused max_size n inputs codes) = Inr table
           \<and> length table = length inputs
           \<and> (\<forall>col \<in> set table. length col = prod_list (map snd inputs))
           \<and> map (map unat) (table_rows table) = product_lists (map (\<lambda>c. [0..<c]) (map snd inputs))
           \<and> distinct (table_rows table)
           \<and> sorted_wrt (<) (table_rows table)"
proof -
  let ?cs = "map snd inputs"
  let ?table = "map (\<lambda>f. map of_nat (cartesian_column ?cs f) :: 'i word list) [0..<length inputs]"
  have t: "snd (combine_to_factor_unused max_size n inputs codes) = Inr ?table"
    using assms(2,3,4,6,7) by (intro unused_table) simp_all
  have ne: "?cs \<noteq> []" using assms(1) by auto
  have rows: "table_rows ?table = product_lists (map (\<lambda>c. map of_nat [0..<c]) ?cs)"
    using converted_rows [OF ne, where 'i = 'i] by simp
  have "map (map unat) (product_lists (map (\<lambda>c. map of_nat [0..<c] :: 'i word list) ?cs))
        = product_lists (map (map unat) (map (\<lambda>c. map of_nat [0..<c] :: 'i word list) ?cs))"
    by (rule product_lists_map)
  also have "map (map unat) (map (\<lambda>c. map of_nat [0..<c] :: 'i word list) ?cs)
             = map (\<lambda>c. [0..<c]) ?cs"
  proof (rule nth_equalityI)
    fix j assume "j < length (map (map unat) (map (\<lambda>c. map of_nat [0..<c] :: 'i word list) ?cs))"
    then have j: "j < length ?cs" by simp
    then have "?cs ! j \<le> 2 ^ LENGTH('i)" using assms(5) nth_mem by blast
    then have "map unat (map (of_nat :: nat \<Rightarrow> 'i word) [0..<?cs ! j]) = [0..<?cs ! j]"
      by (rule unat_of_nat_upt)
    then show "map (map unat) (map (\<lambda>c. map of_nat [0..<c] :: 'i word list) ?cs) ! j
               = map (\<lambda>c. [0..<c]) ?cs ! j"
      using j by (simp del: map_map)
  qed simp
  finally have un: "map (map unat) (table_rows ?table) = product_lists (map (\<lambda>c. [0..<c]) ?cs)"
    using rows by simp
  have srt: "sorted_wrt (<) (table_rows ?table)"
    using converted_rows_strict_sorted [OF assms(5)] by simp
  then have dst: "distinct (table_rows ?table)"
    by (simp only: strict_sorted_iff)
  have len: "length ?table = length inputs" by simp
  have cols: "\<forall>col \<in> set ?table. length col = prod_list ?cs" by auto
  show ?thesis
    using t len cols un dst srt by (intro exI [of _ ?table] conjI) (simp_all only:)
qed

text \<open>
  The unchecked arithmetic stays in range when no cardinality is zero: with at least two
  variables, arrays of length \<open>n\<close>, every raw value below its cardinality, the product of
  the cardinalities representable in \<open>Code_\<close> and every cardinality positive.
\<close>

lemma unused_unchecked_in_range:
  fixes codes :: "'c::len word list" and inputs :: "('i::len word list \<times> nat) list"
  assumes "2 \<le> length inputs" and "length codes = n"
    and "\<forall>(vals, c) \<in> set inputs. length vals = n \<and> (\<forall>i<n. unat (vals ! i) < c)"
    and "prod_list (map snd inputs) < 2 ^ LENGTH('c)"
    and "\<forall>c \<in> set (map snd inputs). 0 < c"
  shows "unused_in_range n inputs codes"
proof -
  let ?k = "length inputs"
  let ?P = "prod_list (map snd inputs)"
  let ?l = "?k - 1"
  let ?vals = "fst (inputs ! ?l)"
  let ?c = "snd (inputs ! ?l)"
  let ?codes0 = "copy_n ?vals n codes"
  let ?nc0 = "of_nat ?c :: 'c word"
  have range: "\<forall>i<n. \<forall>(vals, c) \<in> set inputs. unat (vals ! i) < c"
    using assms(3) by fastforce
  have l: "?l < ?k" "Suc ?l = ?k" using assms(1) by simp_all
  have mem: "(?vals, ?c) \<in> set inputs" using l(1) by (metis nth_mem prod.collapse)
  have lv: "length ?vals = n" and vi: "\<forall>i<n. unat (?vals ! i) < ?c"
    using assms(3) mem by auto
  have dr: "drop ?l inputs = [inputs ! ?l]"
    using drop_Suc_step [OF l(1)] l(2) by simp
  have "?c \<le> ?P"
    using prod_list_nth_le [OF assms(5), of ?l] l(1) by simp
  then have clt: "?c < 2 ^ LENGTH('c)" using assms(4) by simp
  then have uc: "unat ?nc0 = ?c" by (rule unat_of_nat_small)
  have nc: "unat ?nc0 = prod_list (map snd (drop ?l inputs))"
    using uc dr by simp
  have cv: "unat (?codes0 ! i) = unat (?vals ! i)" if "i < n" for i
  proof -
    have "unat (?vals ! i) < 2 ^ LENGTH('c)" using vi clt that by (meson less_trans)
    then have "unat (of_nat (unat (?vals ! i)) :: 'c word) = unat (?vals ! i)"
      by (rule unat_of_nat_small)
    then show ?thesis using that lv assms(2) by (simp add: copy_n_full)
  qed
  have c0: "\<forall>i<n. unat (?codes0 ! i) = mixed_radix (drop ?l (digits_at inputs i))"
  proof (intro allI impI)
    fix j assume j: "j < n"
    have "drop ?l (digits_at inputs j) = [(unat (?vals ! j), ?c)]"
      unfolding digits_at_def drop_map dr by (simp add: case_prod_beta)
    then show "unat (?codes0 ! j) = mixed_radix (drop ?l (digits_at inputs j))"
      using cv [OF j] by simp
  qed
  have len0: "length ?codes0 = n"
    using lv assms(2) by (simp add: copy_n_full)
  have first: "list_all (\<lambda>i. unat (?codes0 ! i) < unat ?nc0) [0..<n]"
    using cv vi uc by (simp add: list_all_iff)
  have second: "code_loop_in_range n inputs ?l ?nc0 ?codes0"
    using l(1) len0 assms(5,4) nc range c0 by (intro code_loop_in_range_ok) simp_all
  have sn: "snd (code_loop n inputs ?l ?nc0 ?codes0) = Inr (of_nat ?P)"
    using l(1) assms(5,4) nc by (intro code_loop_ncombos) simp_all
  then obtain cs' where cl: "code_loop n inputs ?l ?nc0 ?codes0 = (cs', Inr (of_nat ?P))"
    by (cases "code_loop n inputs ?l ?nc0 ?codes0") auto
  have uP: "unat (of_nat ?P :: 'c word) = ?P"
    using assms(4) by (rule unat_of_nat_small)
  have tl: "table_loop_in_range inputs ?k (of_nat ?P :: 'c word) 1 ?P"
    using assms(5,4) uP by (intro table_loop_in_range_ok) simp_all
  have third: "(case cast_size (of_nat ?P :: 'c word) of
                  Inl e \<Rightarrow> True
                | Inr ntotal \<Rightarrow> table_loop_in_range inputs ?k (of_nat ?P :: 'c word) 1 ntotal)"
    using tl uP by (simp add: cast_size_def)
  show ?thesis
    unfolding unused_in_range_def Let_def
    using first second third cl by simp
qed

text \<open>Scenario C satisfies both.\<close>

lemma scenario_C_in_range:
  "unused_in_range 3 [([0, 1, 0 :: 8 word], 2), ([2, 0, 1], 3)] [0, 0, 0 :: 8 word]"
proof -
  let ?inputs = "[([0, 1, 0], 2), ([2, 0, 1], 3)] :: (8 word list \<times> nat) list"
  have h1: "2 \<le> length ?inputs" by simp
  have h2: "length [0, 0, 0 :: 8 word] = 3" by simp
  have h3: "\<forall>(vals, c) \<in> set ?inputs. length vals = 3 \<and> (\<forall>i<3. unat (vals ! i) < c)"
    by (simp add: numeral_3_eq_3 All_less_Suc)
  have h4: "prod_list (map snd ?inputs) < 2 ^ LENGTH(8)" by simp
  have h5: "\<forall>c \<in> set (map snd ?inputs). 0 < c" by simp
  show ?thesis by (rule unused_unchecked_in_range [OF h1 h2 h3 h4 h5])
qed

section \<open>The claims\<close>

text \<open>
  C2 (mixed-radix code formula). For \<open>combine_to_factor_unused\<close> with at least two
  variables, arrays of length \<open>n\<close>, every raw value of a variable below its cardinality
  and the product of the cardinalities representable in \<open>Code_\<close>, the code of observation
  \<open>i\<close> is the sum over the variables of the raw value times the product of the
  cardinalities of the variables after it.
\<close>

theorem unused_mixed_radix_codes:
  fixes codes :: "'c::len word list" and inputs :: "('i::len word list \<times> nat) list"
  assumes "2 \<le> length inputs" and "length inputs \<le> size_max" and "length codes = n"
    and "\<forall>(vals, c) \<in> set inputs. length vals = n \<and> (\<forall>i<n. unat (vals ! i) < c)"
    and "prod_list (map snd inputs) < 2 ^ LENGTH('c)"
  shows "map unat (fst (combine_to_factor_unused max_size n inputs codes))
         = map (\<lambda>i. mixed_radix (digits_at inputs i)) [0..<n]"
proof (rule nth_equalityI)
  have len: "length (fst (combine_to_factor_unused max_size n inputs codes)) = n"
    using assms(3,4) by (intro unused_length) auto
  then show "length (map unat (fst (combine_to_factor_unused max_size n inputs codes)))
             = length (map (\<lambda>i. mixed_radix (digits_at inputs i)) [0..<n])"
    by simp
  fix i
  assume "i < length (map unat (fst (combine_to_factor_unused max_size n inputs codes)))"
  then have i: "i < n" using len by simp
  have "length inputs = 1 \<longrightarrow>
          prod_list (map snd inputs) \<le> size_max \<and> prod_list (map snd inputs) \<le> max_size"
    using assms(1) by simp
  then have "unat (fst (combine_to_factor_unused max_size n inputs codes) ! i)
             = mixed_radix (digits_at inputs i)"
    using assms(2-5) i by (intro unused_codes_formula) simp_all
  then show "map unat (fst (combine_to_factor_unused max_size n inputs codes)) ! i
             = map (\<lambda>i. mixed_radix (digits_at inputs i)) [0..<n] ! i"
    using i len by simp
qed

text \<open>Scenario C of the specification: cardinalities 2 and 3, codes \<open>[2, 3, 1]\<close>.\<close>

theorem unused_mixed_radix_codes_witness:
  "map unat (fst (combine_to_factor_unused size_max 3
      [([0, 1, 0 :: 8 word], 2), ([2, 0, 1], 3)] [0, 0, 0 :: 8 word]))
   = [2, 3, 1]"
proof -
  let ?inputs = "[([0, 1, 0], 2), ([2, 0, 1], 3)] :: (8 word list \<times> nat) list"
  have h1: "2 \<le> length ?inputs" by simp
  have h2: "length ?inputs \<le> size_max" by (simp add: size_max_def)
  have h3: "length [0, 0, 0 :: 8 word] = 3" by simp
  have h4: "\<forall>(vals, c) \<in> set ?inputs. length vals = 3 \<and> (\<forall>i<3. unat (vals ! i) < c)"
    by (simp add: numeral_3_eq_3 All_less_Suc)
  have h5: "prod_list (map snd ?inputs) < 2 ^ LENGTH(8)" by simp
  have "map (\<lambda>i. mixed_radix (digits_at ?inputs i)) [0..<3] = [2, 3, 1]"
    by (simp add: digits_at_def numeral_3_eq_3)
  then show ?thesis
    using unused_mixed_radix_codes [OF h1 h2 h3 h4 h5, of size_max] by (simp only:)
qed

text \<open>
  C3 (Cartesian completeness). With two variables of cardinalities 2 and 0 the product of
  the cardinalities, zero, is representable, and the table required by the claim has two
  empty columns. The call returns no table: the table loop divides by the zero cardinality.
\<close>

theorem unused_cartesian_zero_cardinality:
  "prod_list (map snd [([] :: 8 word list, 2), ([], 0)]) < (2::nat) ^ LENGTH(8)
   \<and> snd (combine_to_factor_unused max_size 0 [([] :: 8 word list, 2), ([], 0)]
            ([] :: 8 word list))
       = Inl DivisionByZero"
  by (simp add: unused_eval)

text \<open>
  C5 (overflow), amended. With at least two variables, the last cardinality representable
  in \<open>Code_\<close> and the product of the cardinalities beyond the range of \<open>Code_\<close>, the call
  fails with an overflow and returns no table. Nothing is said of the array \<open>codes\<close>.
\<close>

theorem unused_overflow_fails:
  fixes codes :: "'c::len word list" and inputs :: "('i::len word list \<times> nat) list"
  assumes "2 \<le> length inputs" and "length inputs \<le> size_max"
    and "snd (last inputs) < 2 ^ LENGTH('c)"
    and "2 ^ LENGTH('c) \<le> prod_list (map snd inputs)"
  shows "snd (combine_to_factor_unused max_size n inputs codes) = Inl Overflow"
proof -
  let ?k = "length inputs"
  let ?l = "?k - 1"
  let ?c = "snd (inputs ! ?l)"
  let ?codes0 = "copy_n (fst (inputs ! ?l)) n codes"
  have l: "?l < ?k" "Suc ?l = ?k" using assms(1) by simp_all
  have ne: "inputs \<noteq> []" using assms(1) by auto
  have lst: "last inputs = inputs ! ?l" using ne by (rule last_conv_nth)
  have dr: "drop ?l inputs = [inputs ! ?l]"
    using drop_Suc_step [OF l(1)] l(2) by simp
  have uc: "unat (of_nat ?c :: 'c word) = ?c"
    using assms(3) lst by (simp add: unat_of_nat_small)
  obtain cs' r where cl: "code_loop n inputs ?l (of_nat ?c :: 'c word) ?codes0 = (cs', r)"
    by (cases "code_loop n inputs ?l (of_nat ?c :: 'c word) ?codes0")
  show ?thesis
  proof (cases r)
    case (Inl e)
    then have "e = Overflow" using cl by (auto dest: code_loop_error)
    then show ?thesis
      using assms(1,2) cl Inl
      by (auto simp: combine_to_factor_unused_def as_size_type_ok Let_def)
  next
    case (Inr nc)
    then have "unat nc = prod_list (map snd (take ?l inputs)) * unat (of_nat ?c :: 'c word)"
      using cl l(1) by (intro code_loop_result) auto
    also have "\<dots> = prod_list (map snd (take ?l inputs)) * prod_list (map snd (drop ?l inputs))"
      using uc dr by simp
    also have "\<dots> = prod_list (map snd inputs)" by (rule prod_list_take_drop)
    finally have "2 ^ LENGTH('c) \<le> unat nc" using assms(4) by simp
    moreover have "unat nc < 2 ^ LENGTH('c)" by simp
    ultimately show ?thesis by simp
  qed
qed

theorem unused_overflow_fails_witness:
  "snd (combine_to_factor_unused size_max 1 [([0 :: 8 word], 16), ([1], 16)] [0 :: 8 word])
   = Inl Overflow"
proof -
  let ?inputs = "[([0], 16), ([1], 16)] :: (8 word list \<times> nat) list"
  have h1: "2 \<le> length ?inputs" by simp
  have h2: "length ?inputs \<le> size_max" by (simp add: size_max_def)
  have h3: "snd (last ?inputs) < 2 ^ LENGTH(8)" by simp
  have h4: "2 ^ LENGTH(8) \<le> prod_list (map snd ?inputs)" by simp
  show ?thesis by (rule unused_overflow_fails [OF h1 h2 h3 h4])
qed

text \<open>
  C5 as stated fails: the call copies the last variable into \<open>codes\<close> before the first
  checked product, so the failing call has changed the array.
\<close>

theorem unused_overflow_codes_counterexample:
  "2 ^ LENGTH(8) \<le> prod_list (map snd [([0 :: 8 word], 16), ([1], 16::nat)])
   \<and> combine_to_factor_unused size_max 1 [([0 :: 8 word], 16), ([1], 16)] [0 :: 8 word]
     = ([1], Inl Overflow)
   \<and> [1 :: 8 word] \<noteq> [0]"
  by (simp add: unused_eval)

text \<open>
  C6 (zero cardinality). With two variables of cardinalities 2 and 0 and no observation,
  the call does not complete with an empty table: the table loop divides by zero.
\<close>

theorem unused_zero_cardinality_fails:
  "combine_to_factor_unused max_size 0 [([] :: 8 word list, 2), ([], 0)] ([] :: 8 word list)
   = ([], Inl DivisionByZero)"
  by (simp add: unused_eval)

text \<open>
  C10 (unchecked arithmetic stays in range). With two variables of cardinalities 0 and 2 and
  no observation, the preconditions of the claim hold and the checked total is zero; the
  first round of the table loop sizes the last column to \<open>inner_repeats * finfo.second = 2\<close>,
  above the total, and the second round divides by the zero cardinality.
\<close>

theorem unused_in_range_zero_cardinality:
  "prod_list (map snd [([] :: 8 word list, 0), ([], 2)]) < (2::nat) ^ LENGTH(8)
   \<and> \<not> unused_in_range 0 [([] :: 8 word list, 0), ([], 2)] ([] :: 8 word list)
   \<and> snd (combine_to_factor_unused size_max 0 [([] :: 8 word list, 0), ([], 2)]
            ([] :: 8 word list))
       = Inl DivisionByZero"
  by (simp add: unused_in_range_def unused_eval upt_conv_Cons iota_numeral)

text \<open>
  C1 (round trip), amended. For arrays of length \<open>n\<close>: \<open>create_factor\<close> and
  \<open>combine_to_factor\<close> return a table when the number of distinct values (combinations) is
  representable in \<open>Code_\<close>, and fail with an overflow otherwise; indexing the returned
  table at \<open>codes[i]\<close> gives back the value, or the tuple of values, of observation \<open>i\<close>.
  For \<open>combine_to_factor_unused\<close>, when every raw value is below its cardinality and the
  product of the cardinalities is representable in \<open>Code_\<close>, every table that the call
  returns gives back the tuple of observation \<open>i\<close> at \<open>codes[i]\<close>; and with at least one
  observation the call returns a table as soon as the product of the cardinalities is
  representable in \<open>std::size_t\<close> and at most \<open>max_size\<close>.
\<close>

theorem round_trip:
  fixes codes ccodes :: "'c::len word list" and ucodes :: "'d::len word list"
    and input :: "('a::linorder) list" and inputs :: "('b::linorder) list list"
    and uinputs :: "('i::len word list \<times> nat) list"
  shows "(length input = n \<and> length codes = n \<and> n \<le> size_max \<longrightarrow>
          (if card (set input) \<le> code_max TYPE('c) sg
           then \<exists>codes' levels. create_factor sg n input codes = (codes', Inr levels)
                  \<and> (\<forall>i<n. unat (codes' ! i) < length levels
                            \<and> levels ! unat (codes' ! i) = input ! i)
           else snd (create_factor sg n input codes) = Inl Overflow))
       \<and> (length inputs \<le> size_max \<and> m \<le> size_max \<and> length ccodes = m
            \<and> (\<forall>col \<in> set inputs. length col = m) \<longrightarrow>
          (if inputs = [] \<or> card (observation inputs ` {0..<m}) \<le> code_max TYPE('c) sg
           then \<exists>codes' table. combine_to_factor sg m inputs ccodes = (codes', Inr table)
                  \<and> (\<forall>i<m. \<forall>f<length inputs. unat (codes' ! i) < length (table ! f)
                            \<and> table ! f ! unat (codes' ! i) = inputs ! f ! i)
           else snd (combine_to_factor sg m inputs ccodes) = Inl Overflow))
       \<and> (length ucodes = l
            \<and> (\<forall>(vals, c) \<in> set uinputs. length vals = l \<and> (\<forall>i<l. unat (vals ! i) < c))
            \<and> prod_list (map snd uinputs) < 2 ^ LENGTH('d) \<longrightarrow>
          (\<forall>utable. snd (combine_to_factor_unused max_size l uinputs ucodes) = Inr utable \<longrightarrow>
             (\<forall>i<l. \<forall>f<length uinputs.
                unat (fst (combine_to_factor_unused max_size l uinputs ucodes) ! i)
                  < length (utable ! f)
                \<and> utable ! f ! unat (fst (combine_to_factor_unused max_size l uinputs ucodes) ! i)
                  = fst (uinputs ! f) ! i))
          \<and> (0 < l \<and> length uinputs \<le> size_max \<and> prod_list (map snd uinputs) \<le> size_max
               \<and> prod_list (map snd uinputs) \<le> max_size \<longrightarrow>
             (\<exists>utable. snd (combine_to_factor_unused max_size l uinputs ucodes) = Inr utable)))"
proof -
  have p1: "length input = n \<and> length codes = n \<and> n \<le> size_max \<longrightarrow>
          (if card (set input) \<le> code_max TYPE('c) sg
           then \<exists>codes' levels. create_factor sg n input codes = (codes', Inr levels)
                  \<and> (\<forall>i<n. unat (codes' ! i) < length levels
                            \<and> levels ! unat (codes' ! i) = input ! i)
           else snd (create_factor sg n input codes) = Inl Overflow)"
  proof (intro impI, elim conjE)
    assume a: "length input = n" "length codes = n" "n \<le> size_max"
    show "if card (set input) \<le> code_max TYPE('c) sg
          then \<exists>codes' levels. create_factor sg n input codes = (codes', Inr levels)
                 \<and> (\<forall>i<n. unat (codes' ! i) < length levels
                           \<and> levels ! unat (codes' ! i) = input ! i)
          else snd (create_factor sg n input codes) = Inl Overflow"
    proof (cases "card (set input) \<le> code_max TYPE('c) sg")
      case True
      then obtain codes' where
        "create_factor sg n input codes = (codes', Inr (sorted_list_of_set (set input)))"
        "\<forall>j<n. unat (codes' ! j) < card (set input)
               \<and> sorted_list_of_set (set input) ! unat (codes' ! j) = input ! j"
        using create_factor_result [OF a] by blast
      then have "\<exists>codes' levels. create_factor sg n input codes = (codes', Inr levels)
                   \<and> (\<forall>i<n. unat (codes' ! i) < length levels
                             \<and> levels ! unat (codes' ! i) = input ! i)"
        by (intro exI [of _ codes'] exI [of _ "sorted_list_of_set (set input)"]) simp
      then show ?thesis using True by (simp only: if_True)
    next
      case False
      then have "code_max TYPE('c) sg < card (set input)" by simp
      then have "snd (create_factor sg n input codes) = Inl Overflow"
        using a(1,2) by (intro create_factor_overflow)
      then show ?thesis using False by (simp only: if_False)
    qed
  qed
  have p2: "length inputs \<le> size_max \<and> m \<le> size_max \<and> length ccodes = m
            \<and> (\<forall>col \<in> set inputs. length col = m) \<longrightarrow>
          (if inputs = [] \<or> card (observation inputs ` {0..<m}) \<le> code_max TYPE('c) sg
           then \<exists>codes' table. combine_to_factor sg m inputs ccodes = (codes', Inr table)
                  \<and> (\<forall>i<m. \<forall>f<length inputs. unat (codes' ! i) < length (table ! f)
                            \<and> table ! f ! unat (codes' ! i) = inputs ! f ! i)
           else snd (combine_to_factor sg m inputs ccodes) = Inl Overflow)"
  proof (intro impI, elim conjE)
    assume a: "length inputs \<le> size_max" "m \<le> size_max" "length ccodes = m"
      "\<forall>col \<in> set inputs. length col = m"
    show "if inputs = [] \<or> card (observation inputs ` {0..<m}) \<le> code_max TYPE('c) sg
          then \<exists>codes' table. combine_to_factor sg m inputs ccodes = (codes', Inr table)
                 \<and> (\<forall>i<m. \<forall>f<length inputs. unat (codes' ! i) < length (table ! f)
                           \<and> table ! f ! unat (codes' ! i) = inputs ! f ! i)
          else snd (combine_to_factor sg m inputs ccodes) = Inl Overflow"
    proof (cases "inputs = [] \<or> card (observation inputs ` {0..<m}) \<le> code_max TYPE('c) sg")
      case True
      have "\<exists>codes' table. combine_to_factor sg m inputs ccodes = (codes', Inr table)
              \<and> (\<forall>i<m. \<forall>f<length inputs. unat (codes' ! i) < length (table ! f)
                        \<and> table ! f ! unat (codes' ! i) = inputs ! f ! i)"
        using combine_result_all [OF a True] by blast
      then show ?thesis using True by (simp only: if_True)
    next
      case False
      then have "inputs \<noteq> []"
        "code_max TYPE('c) sg < card (observation inputs ` {0..<m})" by simp_all
      then have "snd (combine_to_factor sg m inputs ccodes) = Inl Overflow"
        using a(1,3,4) by (intro combine_overflow_all)
      then show ?thesis using False by (simp only: if_False)
    qed
  qed
  have p3: "length ucodes = l
            \<and> (\<forall>(vals, c) \<in> set uinputs. length vals = l \<and> (\<forall>i<l. unat (vals ! i) < c))
            \<and> prod_list (map snd uinputs) < 2 ^ LENGTH('d) \<longrightarrow>
          (\<forall>utable. snd (combine_to_factor_unused max_size l uinputs ucodes) = Inr utable \<longrightarrow>
             (\<forall>i<l. \<forall>f<length uinputs.
                unat (fst (combine_to_factor_unused max_size l uinputs ucodes) ! i)
                  < length (utable ! f)
                \<and> utable ! f ! unat (fst (combine_to_factor_unused max_size l uinputs ucodes) ! i)
                  = fst (uinputs ! f) ! i))
          \<and> (0 < l \<and> length uinputs \<le> size_max \<and> prod_list (map snd uinputs) \<le> size_max
               \<and> prod_list (map snd uinputs) \<le> max_size \<longrightarrow>
             (\<exists>utable. snd (combine_to_factor_unused max_size l uinputs ucodes) = Inr utable))"
  proof (intro impI, elim conjE)
    assume a: "length ucodes = l"
      "\<forall>(vals, c) \<in> set uinputs. length vals = l \<and> (\<forall>i<l. unat (vals ! i) < c)"
      "prod_list (map snd uinputs) < 2 ^ LENGTH('d)"
    have rt: "\<forall>utable. snd (combine_to_factor_unused max_size l uinputs ucodes) = Inr utable \<longrightarrow>
             (\<forall>i<l. \<forall>f<length uinputs.
                unat (fst (combine_to_factor_unused max_size l uinputs ucodes) ! i)
                  < length (utable ! f)
                \<and> utable ! f ! unat (fst (combine_to_factor_unused max_size l uinputs ucodes) ! i)
                  = fst (uinputs ! f) ! i)"
      using unused_round_trip [OF a] by blast
    have tot: "0 < l \<and> length uinputs \<le> size_max \<and> prod_list (map snd uinputs) \<le> size_max
               \<and> prod_list (map snd uinputs) \<le> max_size \<longrightarrow>
             (\<exists>utable. snd (combine_to_factor_unused max_size l uinputs ucodes) = Inr utable)"
    proof (intro impI, elim conjE)
      assume b: "0 < l" "length uinputs \<le> size_max" "prod_list (map snd uinputs) \<le> size_max"
        "prod_list (map snd uinputs) \<le> max_size"
      have "\<forall>c \<in> set (map snd uinputs). 0 < c" using a(2) b(1) by fastforce
      then have "snd (combine_to_factor_unused max_size l uinputs ucodes)
                 = Inr (map (\<lambda>f. map of_nat (cartesian_column (map snd uinputs) f))
                         [0..<length uinputs])"
        using b(2,3,4) a(3) by (intro unused_table) simp_all
      then show "\<exists>utable. snd (combine_to_factor_unused max_size l uinputs ucodes) = Inr utable"
        by blast
    qed
    show "(\<forall>utable. snd (combine_to_factor_unused max_size l uinputs ucodes) = Inr utable \<longrightarrow>
             (\<forall>i<l. \<forall>f<length uinputs.
                unat (fst (combine_to_factor_unused max_size l uinputs ucodes) ! i)
                  < length (utable ! f)
                \<and> utable ! f ! unat (fst (combine_to_factor_unused max_size l uinputs ucodes) ! i)
                  = fst (uinputs ! f) ! i))
          \<and> (0 < l \<and> length uinputs \<le> size_max \<and> prod_list (map snd uinputs) \<le> size_max
               \<and> prod_list (map snd uinputs) \<le> max_size \<longrightarrow>
             (\<exists>utable. snd (combine_to_factor_unused max_size l uinputs ucodes) = Inr utable))"
      by (rule conjI [OF rt tot])
  qed
  show ?thesis by (rule conjI [OF p1 conjI [OF p2 p3]])
qed

text \<open>Scenarios B, A and C of the specification.\<close>

theorem round_trip_witness:
  "(\<exists>codes' levels. create_factor False 4 [10, 30, 20, 10 :: nat] [0, 0, 0, 0 :: 8 word]
                      = (codes', Inr levels)
      \<and> levels ! unat (codes' ! 0) = 10 \<and> levels ! unat (codes' ! 1) = 30
      \<and> levels ! unat (codes' ! 2) = 20 \<and> levels ! unat (codes' ! 3) = 10)
   \<and> (\<exists>codes' table.
         combine_to_factor False 4 [[2, 1, 2, 3 :: nat], [1, 1, 2, 1]] [0, 0, 0, 0 :: 8 word]
         = (codes', Inr table)
      \<and> table ! 0 ! unat (codes' ! 0) = 2 \<and> table ! 1 ! unat (codes' ! 0) = 1
      \<and> table ! 0 ! unat (codes' ! 1) = 1 \<and> table ! 1 ! unat (codes' ! 1) = 1
      \<and> table ! 0 ! unat (codes' ! 2) = 2 \<and> table ! 1 ! unat (codes' ! 2) = 2
      \<and> table ! 0 ! unat (codes' ! 3) = 3 \<and> table ! 1 ! unat (codes' ! 3) = 1)
   \<and> (\<exists>codes' table.
         combine_to_factor_unused size_max 3 [([0, 1, 0 :: 8 word], 2), ([2, 0, 1], 3)]
           [0, 0, 0 :: 8 word]
         = (codes', Inr table)
       \<and> table ! 0 ! unat (codes' ! 0) = 0 \<and> table ! 1 ! unat (codes' ! 0) = 2
       \<and> table ! 0 ! unat (codes' ! 1) = 1 \<and> table ! 1 ! unat (codes' ! 1) = 0
       \<and> table ! 0 ! unat (codes' ! 2) = 0 \<and> table ! 1 ! unat (codes' ! 2) = 1)"
proof -
  let ?input = "[10, 30, 20, 10] :: nat list"
  let ?inputs = "[[2, 1, 2, 3], [1, 1, 2, 1]] :: nat list list"
  let ?uinputs = "[([0, 1, 0], 2), ([2, 0, 1], 3)] :: (8 word list \<times> nat) list"
  let ?c4 = "[0, 0, 0, 0] :: 8 word list"
  let ?c3 = "[0, 0, 0] :: 8 word list"
  have h1: "length ?input = 4 \<and> length ?c4 = 4 \<and> 4 \<le> size_max"
    by (simp add: size_max_def)
  have "card (set ?input) \<le> length ?input" by (rule card_length)
  then have c1: "card (set ?input) \<le> code_max TYPE(8) False"
    by (simp add: code_max_def)
  have h2: "length ?inputs \<le> size_max \<and> 4 \<le> size_max \<and> length ?c4 = 4
            \<and> (\<forall>col \<in> set ?inputs. length col = 4)"
    by (simp add: size_max_def)
  have "card (observation ?inputs ` {0..<4}) \<le> card {0..<4::nat}"
    by (intro card_image_le) simp
  then have c2: "?inputs = [] \<or> card (observation ?inputs ` {0..<4}) \<le> code_max TYPE(8) False"
    by (simp add: code_max_def)
  have h3: "length ?c3 = 3
            \<and> (\<forall>(vals, c) \<in> set ?uinputs. length vals = 3 \<and> (\<forall>i<3. unat (vals ! i) < c))
            \<and> prod_list (map snd ?uinputs) < 2 ^ LENGTH(8)"
    by (simp add: numeral_3_eq_3 All_less_Suc)
  have h3': "0 < (3::nat) \<and> length ?uinputs \<le> size_max \<and> prod_list (map snd ?uinputs) \<le> size_max
             \<and> prod_list (map snd ?uinputs) \<le> size_max"
    by (simp add: size_max_def)
  note r = round_trip [of ?input 4 ?c4 False ?inputs 4 ?c4 ?c3 3 ?uinputs size_max]
  have "\<exists>codes' levels. create_factor False 4 ?input ?c4 = (codes', Inr levels)
          \<and> (\<forall>i<4. unat (codes' ! i) < length levels \<and> levels ! unat (codes' ! i) = ?input ! i)"
    using mp [OF conjunct1 [OF r] h1] c1 by (simp only: if_True)
  then obtain codes1 levels where
    e1: "create_factor False 4 ?input ?c4 = (codes1, Inr levels)"
    and q1: "\<forall>i<4. unat (codes1 ! i) < length levels \<and> levels ! unat (codes1 ! i) = ?input ! i"
    by (elim exE conjE)
  have "\<exists>codes' table. combine_to_factor False 4 ?inputs ?c4 = (codes', Inr table)
          \<and> (\<forall>i<4. \<forall>f<length ?inputs. unat (codes' ! i) < length (table ! f)
                    \<and> table ! f ! unat (codes' ! i) = ?inputs ! f ! i)"
    using mp [OF conjunct1 [OF conjunct2 [OF r]] h2] c2 by (simp only: if_True)
  then obtain codes2 table where
    e2: "combine_to_factor False 4 ?inputs ?c4 = (codes2, Inr table)"
    and q2: "\<forall>i<4. \<forall>f<length ?inputs. unat (codes2 ! i) < length (table ! f)
                \<and> table ! f ! unat (codes2 ! i) = ?inputs ! f ! i"
    by (elim exE conjE)
  note t3 = mp [OF conjunct2 [OF conjunct2 [OF r]] h3]
  obtain utable where
    s3: "snd (combine_to_factor_unused size_max 3 ?uinputs ?c3) = Inr utable"
    using mp [OF conjunct2 [OF t3] h3'] by (elim exE)
  obtain codes3 where
    e3: "combine_to_factor_unused size_max 3 ?uinputs ?c3 = (codes3, Inr utable)"
    using s3 by (cases "combine_to_factor_unused size_max 3 ?uinputs ?c3") simp
  have q3': "\<forall>i<3. \<forall>f<length ?uinputs. utable ! f ! unat (codes3 ! i) = fst (?uinputs ! f) ! i"
    using mp [OF spec [OF conjunct1 [OF t3], of utable] s3] e3 by simp
  have p1: "levels ! unat (codes1 ! 0) = 10 \<and> levels ! unat (codes1 ! 1) = 30
            \<and> levels ! unat (codes1 ! 2) = 20 \<and> levels ! unat (codes1 ! 3) = 10"
    using q1 [rule_format, of 0] q1 [rule_format, of 1] q1 [rule_format, of 2]
      q1 [rule_format, of 3] by simp
  have p2: "table ! 0 ! unat (codes2 ! 0) = 2 \<and> table ! 1 ! unat (codes2 ! 0) = 1
      \<and> table ! 0 ! unat (codes2 ! 1) = 1 \<and> table ! 1 ! unat (codes2 ! 1) = 1
      \<and> table ! 0 ! unat (codes2 ! 2) = 2 \<and> table ! 1 ! unat (codes2 ! 2) = 2
      \<and> table ! 0 ! unat (codes2 ! 3) = 3 \<and> table ! 1 ! unat (codes2 ! 3) = 1"
    using q2 [rule_format, of 0 0] q2 [rule_format, of 0 1] q2 [rule_format, of 1 0]
      q2 [rule_format, of 1 1] q2 [rule_format, of 2 0] q2 [rule_format, of 2 1]
      q2 [rule_format, of 3 0] q2 [rule_format, of 3 1] by simp
  have p3: "utable ! 0 ! unat (codes3 ! 0) = 0 \<and> utable ! 1 ! unat (codes3 ! 0) = 2
       \<and> utable ! 0 ! unat (codes3 ! 1) = 1 \<and> utable ! 1 ! unat (codes3 ! 1) = 0
       \<and> utable ! 0 ! unat (codes3 ! 2) = 0 \<and> utable ! 1 ! unat (codes3 ! 2) = 1"
    using q3' [rule_format, of 0 0] q3' [rule_format, of 0 1] q3' [rule_format, of 1 0]
      q3' [rule_format, of 1 1] q3' [rule_format, of 2 0] q3' [rule_format, of 2 1] by simp
  show ?thesis
    using e1 p1 e2 p2 e3 p3 by (intro conjI exI [of _ codes1] exI [of _ levels]
        exI [of _ codes2] exI [of _ table] exI [of _ codes3] exI [of _ utable]) simp_all
qed

text \<open>
  C1 as stated fails for \<open>combine_to_factor_unused\<close> when \<open>Code_\<close> is too narrow for the
  cardinality: with one variable of cardinality 257 whose raw value is 256, an \<open>Input_\<close> of
  sixteen bits and codes of eight bits, the call returns a table, the code is 0 and the
  level at 0 is 0.
\<close>

theorem round_trip_counterexample:
  "\<exists>codes' table.
      combine_to_factor_unused size_max 1 [([256 :: 16 word], 257)] [0 :: 8 word]
      = (codes', Inr table)
      \<and> unat ([256 :: 16 word] ! 0) < 257
      \<and> table ! 0 ! unat (codes' ! 0) \<noteq> [256 :: 16 word] ! 0"
proof -
  have r: "combine_to_factor_unused size_max 1 [([256 :: 16 word], 257)] [0 :: 8 word]
           = ([0], Inr [iota 257 (0 :: 8 word)])"
    by (simp add: unused_eval)
  have "(iota 257 (0 :: 8 word) :: 16 word list) ! 0 = 0" by (simp add: iota_nth)
  then show ?thesis using r by simp
qed

text \<open>
  C4 (uniqueness and sortedness), amended. For arrays of length \<open>n\<close>, every table returned
  by \<open>create_factor\<close> and by \<open>combine_to_factor\<close> has no duplicate row and is sorted
  lexicographically, and a table is returned when the number of distinct values
  (combinations) is representable in \<open>Code_\<close>. So is every table returned by
  \<open>combine_to_factor_unused\<close> when the product of the cardinalities is representable in
  \<open>Code_\<close> and the levels below every cardinality are representable in \<open>Input_\<close>.
\<close>

theorem tables_unique_sorted:
  fixes codes ccodes :: "'c::len word list" and ucodes :: "'d::len word list"
    and input :: "('a::linorder) list" and inputs :: "('b::linorder) list list"
    and uinputs :: "('i::len word list \<times> nat) list"
  shows "(length input = n \<and> length codes = n \<and> n \<le> size_max \<longrightarrow>
          (\<forall>codes' levels. create_factor sg n input codes = (codes', Inr levels) \<longrightarrow>
             distinct levels \<and> sorted levels)
          \<and> (card (set input) \<le> code_max TYPE('c) sg \<longrightarrow>
               (\<exists>codes' levels. create_factor sg n input codes = (codes', Inr levels))))
       \<and> (length inputs \<le> size_max \<and> m \<le> size_max \<and> length ccodes = m
            \<and> (\<forall>col \<in> set inputs. length col = m) \<longrightarrow>
          (\<forall>codes' table. combine_to_factor sg m inputs ccodes = (codes', Inr table) \<longrightarrow>
             distinct (table_rows table) \<and> sorted (table_rows table))
          \<and> (inputs = [] \<or> card (observation inputs ` {0..<m}) \<le> code_max TYPE('c) sg \<longrightarrow>
               (\<exists>codes' table. combine_to_factor sg m inputs ccodes = (codes', Inr table))))
       \<and> (snd (combine_to_factor_unused max_size l uinputs ucodes) = Inr utable
            \<and> prod_list (map snd uinputs) < 2 ^ LENGTH('d)
            \<and> (\<forall>c \<in> set (map snd uinputs). c \<le> 2 ^ LENGTH('i)) \<longrightarrow>
          distinct (table_rows utable) \<and> sorted (table_rows utable))"
proof -
  have p1: "length input = n \<and> length codes = n \<and> n \<le> size_max \<longrightarrow>
          (\<forall>codes' levels. create_factor sg n input codes = (codes', Inr levels) \<longrightarrow>
             distinct levels \<and> sorted levels)
          \<and> (card (set input) \<le> code_max TYPE('c) sg \<longrightarrow>
               (\<exists>codes' levels. create_factor sg n input codes = (codes', Inr levels)))"
  proof (intro impI, elim conjE)
    assume a: "length input = n" "length codes = n" "n \<le> size_max"
    have res: "\<exists>codes'. create_factor sg n input codes
                 = (codes', Inr (sorted_list_of_set (set input)))"
      if "card (set input) \<le> code_max TYPE('c) sg"
      using create_factor_result [OF a that] by blast
    have ret: "distinct levels \<and> sorted levels"
      if r: "create_factor sg n input codes = (codes', Inr levels)" for codes' levels
    proof -
      have "snd (create_factor sg n input codes) = Inr levels" using r by simp
      then have "card (set input) \<le> code_max TYPE('c) sg"
        using a(1,2) by (intro create_factor_returned_cap)
      then have "levels = sorted_list_of_set (set input)" using res r by auto
      then show ?thesis by simp
    qed
    show "(\<forall>codes' levels. create_factor sg n input codes = (codes', Inr levels) \<longrightarrow>
             distinct levels \<and> sorted levels)
          \<and> (card (set input) \<le> code_max TYPE('c) sg \<longrightarrow>
               (\<exists>codes' levels. create_factor sg n input codes = (codes', Inr levels)))"
      using ret res by blast
  qed
  have p2: "length inputs \<le> size_max \<and> m \<le> size_max \<and> length ccodes = m
            \<and> (\<forall>col \<in> set inputs. length col = m) \<longrightarrow>
          (\<forall>codes' table. combine_to_factor sg m inputs ccodes = (codes', Inr table) \<longrightarrow>
             distinct (table_rows table) \<and> sorted (table_rows table))
          \<and> (inputs = [] \<or> card (observation inputs ` {0..<m}) \<le> code_max TYPE('c) sg \<longrightarrow>
               (\<exists>codes' table. combine_to_factor sg m inputs ccodes = (codes', Inr table)))"
  proof (intro impI, elim conjE)
    assume a: "length inputs \<le> size_max" "m \<le> size_max" "length ccodes = m"
      "\<forall>col \<in> set inputs. length col = m"
    have res: "\<exists>codes' table. combine_to_factor sg m inputs ccodes = (codes', Inr table)
                 \<and> sorted_wrt (<) (table_rows table)"
      if "inputs = [] \<or> card (observation inputs ` {0..<m}) \<le> code_max TYPE('c) sg"
      using combine_result_all [OF a that] by blast
    have ret: "distinct (table_rows table) \<and> sorted (table_rows table)"
      if r: "combine_to_factor sg m inputs ccodes = (codes', Inr table)" for codes' table
    proof -
      have "snd (combine_to_factor sg m inputs ccodes) = Inr table" using r by simp
      then have "inputs = [] \<or> card (observation inputs ` {0..<m}) \<le> code_max TYPE('c) sg"
        using combine_returned_cap [OF a(3,4)] by blast
      then have "sorted_wrt (<) (table_rows table)" using res r by auto
      then show ?thesis by (simp add: strict_sorted_iff)
    qed
    show "(\<forall>codes' table. combine_to_factor sg m inputs ccodes = (codes', Inr table) \<longrightarrow>
             distinct (table_rows table) \<and> sorted (table_rows table))
          \<and> (inputs = [] \<or> card (observation inputs ` {0..<m}) \<le> code_max TYPE('c) sg \<longrightarrow>
               (\<exists>codes' table. combine_to_factor sg m inputs ccodes = (codes', Inr table)))"
      using ret res by blast
  qed
  have p3: "snd (combine_to_factor_unused max_size l uinputs ucodes) = Inr utable
              \<and> prod_list (map snd uinputs) < 2 ^ LENGTH('d)
              \<and> (\<forall>c \<in> set (map snd uinputs). c \<le> 2 ^ LENGTH('i)) \<longrightarrow>
            distinct (table_rows utable) \<and> sorted (table_rows utable)"
  proof (intro impI, elim conjE)
    assume a: "snd (combine_to_factor_unused max_size l uinputs ucodes) = Inr utable"
      "prod_list (map snd uinputs) < 2 ^ LENGTH('d)"
      "\<forall>c \<in> set (map snd uinputs). c \<le> 2 ^ LENGTH('i)"
    have "utable = map (\<lambda>f. map of_nat (cartesian_column (map snd uinputs) f))
                     [0..<length uinputs]"
      using a(1,2) by (rule unused_returned_table)
    then have "sorted_wrt (<) (table_rows utable)"
      using converted_rows_strict_sorted [OF a(3)] by simp
    then show "distinct (table_rows utable) \<and> sorted (table_rows utable)"
      by (simp add: strict_sorted_iff)
  qed
  show ?thesis by (rule conjI [OF p1 conjI [OF p2 p3]])
qed

text \<open>Scenarios B, A and C of the specification.\<close>

theorem tables_unique_sorted_witness:
  "(\<exists>codes' levels. create_factor False 4 [10, 30, 20, 10 :: nat] [0, 0, 0, 0 :: 8 word]
                      = (codes', Inr levels)
      \<and> distinct levels \<and> sorted levels)
   \<and> (\<exists>codes' table.
         combine_to_factor False 4 [[2, 1, 2, 3 :: nat], [1, 1, 2, 1]] [0, 0, 0, 0 :: 8 word]
         = (codes', Inr table)
      \<and> distinct (table_rows table) \<and> sorted (table_rows table))
   \<and> snd (combine_to_factor_unused size_max 3 [([0, 1, 0 :: 8 word], 2), ([2, 0, 1], 3)]
            [0, 0, 0 :: 8 word])
       = Inr [[0, 0, 0, 1, 1, 1], [0, 1, 2, 0, 1, 2]]
   \<and> distinct (table_rows [[0, 0, 0, 1, 1, 1], [0, 1, 2, 0, 1, 2 :: 8 word]])
   \<and> sorted (table_rows [[0, 0, 0, 1, 1, 1], [0, 1, 2, 0, 1, 2 :: 8 word]])"
proof -
  let ?input = "[10, 30, 20, 10] :: nat list"
  let ?inputs = "[[2, 1, 2, 3], [1, 1, 2, 1]] :: nat list list"
  let ?uinputs = "[([0, 1, 0], 2), ([2, 0, 1], 3)] :: (8 word list \<times> nat) list"
  let ?utable = "[[0, 0, 0, 1, 1, 1], [0, 1, 2, 0, 1, 2]] :: 8 word list list"
  let ?c4 = "[0, 0, 0, 0] :: 8 word list"
  let ?c3 = "[0, 0, 0] :: 8 word list"
  have h1: "length ?input = 4 \<and> length ?c4 = 4 \<and> 4 \<le> size_max"
    by (simp add: size_max_def)
  have "card (set ?input) \<le> length ?input" by (rule card_length)
  then have c1: "card (set ?input) \<le> code_max TYPE(8) False"
    by (simp add: code_max_def)
  have h2: "length ?inputs \<le> size_max \<and> 4 \<le> size_max \<and> length ?c4 = 4
            \<and> (\<forall>col \<in> set ?inputs. length col = 4)"
    by (simp add: size_max_def)
  have "card (observation ?inputs ` {0..<4}) \<le> card {0..<4::nat}"
    by (intro card_image_le) simp
  then have c2: "?inputs = [] \<or> card (observation ?inputs ` {0..<4}) \<le> code_max TYPE(8) False"
    by (simp add: code_max_def)
  have "combine_to_factor_unused size_max 3 ?uinputs ?c3 = ([2, 3, 1], Inr ?utable)"
    by (simp add: scenario_C size_max_def)
  then have h3: "snd (combine_to_factor_unused size_max 3 ?uinputs ?c3) = Inr ?utable
                 \<and> prod_list (map snd ?uinputs) < 2 ^ LENGTH(8)
                 \<and> (\<forall>c \<in> set (map snd ?uinputs). c \<le> 2 ^ LENGTH(8))"
    by simp
  note r = tables_unique_sorted [of ?input 4 ?c4 False ?inputs 4 ?c4 size_max 3 ?uinputs ?c3
      ?utable]
  note t1 = mp [OF conjunct1 [OF r] h1]
  obtain codes1 levels where e1: "create_factor False 4 ?input ?c4 = (codes1, Inr levels)"
    using mp [OF conjunct2 [OF t1] c1] by (elim exE)
  have a1: "distinct levels \<and> sorted levels"
    by (rule mp [OF spec [OF spec [OF conjunct1 [OF t1]]] e1])
  note t2 = mp [OF conjunct1 [OF conjunct2 [OF r]] h2]
  obtain codes2 table where e2: "combine_to_factor False 4 ?inputs ?c4 = (codes2, Inr table)"
    using mp [OF conjunct2 [OF t2] c2] by (elim exE)
  have a2: "distinct (table_rows table) \<and> sorted (table_rows table)"
    by (rule mp [OF spec [OF spec [OF conjunct1 [OF t2]]] e2])
  have a3: "distinct (table_rows ?utable) \<and> sorted (table_rows ?utable)"
    by (rule mp [OF conjunct2 [OF conjunct2 [OF r]] h3])
  have b1: "\<exists>codes' levels. create_factor False 4 ?input ?c4 = (codes', Inr levels)
              \<and> distinct levels \<and> sorted levels"
    using e1 a1 by blast
  have b2: "\<exists>codes' table. combine_to_factor False 4 ?inputs ?c4 = (codes', Inr table)
              \<and> distinct (table_rows table) \<and> sorted (table_rows table)"
    using e2 a2 by blast
  show ?thesis
    using b1 b2 a3 h3 by (simp only: simp_thms)
qed

text \<open>
  C4 as stated fails for \<open>combine_to_factor_unused\<close> with one variable of cardinality 257:
  with codes of eight bits the counter of \<open>std::iota\<close>, a \<open>Code_\<close>, wraps around; with codes
  of sixteen bits and an \<open>Input_\<close> of eight bits the level 256 is converted to 0. Either way
  level 0 is listed twice.
\<close>

theorem tables_unique_sorted_counterexample:
  "(\<exists>table. snd (combine_to_factor_unused size_max 0 [([] :: 16 word list, 257)]
                  ([] :: 8 word list)) = Inr table
      \<and> \<not> distinct (table_rows table))
   \<and> (\<exists>table. snd (combine_to_factor_unused size_max 0 [([] :: 8 word list, 257)]
                    ([] :: 16 word list)) = Inr table
      \<and> (257::nat) < 2 ^ LENGTH(16)
      \<and> \<not> distinct (table_rows table))"
proof -
  have dup: "\<not> distinct (table_rows [col])"
    if "length col = 257" "col ! 0 = col ! 256" for col :: "'x list"
  proof
    assume "distinct (table_rows [col])"
    then have "distinct col" by (simp add: table_rows_single distinct_map)
    then show False using that by (simp add: nth_eq_iff_index_eq)
  qed
  have r1: "snd (combine_to_factor_unused size_max 0 [([] :: 16 word list, 257)]
                  ([] :: 8 word list))
            = Inr [iota 257 (0 :: 8 word)]"
    by (simp add: unused_eval)
  have "(iota 257 (0 :: 8 word) :: 16 word list) ! 0 = iota 257 (0 :: 8 word) ! 256"
    by (simp add: iota_nth)
  then have d1: "\<not> distinct (table_rows [iota 257 (0 :: 8 word) :: 16 word list])"
    by (intro dup) simp_all
  have r2: "snd (combine_to_factor_unused size_max 0 [([] :: 8 word list, 257)]
                  ([] :: 16 word list))
            = Inr [iota 257 (0 :: 16 word)]"
    by (simp add: unused_eval)
  have "(iota 257 (0 :: 16 word) :: 8 word list) ! 0 = iota 257 (0 :: 16 word) ! 256"
    by (simp add: iota_nth)
  then have d2: "\<not> distinct (table_rows [iota 257 (0 :: 16 word) :: 8 word list])"
    by (intro dup) simp_all
  show ?thesis using r1 d1 r2 d2 by simp
qed

text \<open>
  C7 (exhaustion of the code type). With at least one variable, when the distinct
  combinations of the observations are more than the largest value of \<open>Code_\<close>,
  \<open>combine_to_factor\<close> fails with an overflow: the sizing of the remapping table, which the
  specification describes as checked against the code type, does not pass. With no
  variable the function looks for no combination.
\<close>

theorem combine_code_exhaustion_fails:
  fixes codes :: "'c::len word list" and inputs :: "('a::linorder) list list"
  assumes "inputs \<noteq> []" and "length codes = n" and "\<forall>col \<in> set inputs. length col = n"
    and "code_max TYPE('c) sg < card (observation inputs ` {0..<n})"
  shows "snd (combine_to_factor sg n inputs codes) = Inl Overflow"
proof (cases "length inputs \<le> size_max")
  case True
  then show ?thesis using assms by (intro combine_overflow_all)
next
  case False
  then show ?thesis by (simp add: combine_to_factor_def as_size_type_def)
qed

text \<open>Codes of eight bits and 257 distinct combinations of two variables.\<close>

theorem combine_code_exhaustion_fails_witness:
  "snd (combine_to_factor False 257 [[0..<257], replicate 257 0] (replicate 257 (0 :: 8 word)))
   = Inl Overflow"
proof -
  let ?inputs = "[[0..<257], replicate 257 0] :: nat list list"
  have h1: "?inputs \<noteq> []" by simp
  have h2: "length (replicate 257 (0 :: 8 word)) = 257" by simp
  have h3: "\<forall>col \<in> set ?inputs. length col = 257" by simp
  have "inj_on (observation ?inputs) {0..<257}"
    by (rule inj_onI) (simp add: observation_def)
  then have "card (observation ?inputs ` {0..<257}) = 257" by (simp add: card_image)
  then have h4: "code_max TYPE(8) False < card (observation ?inputs ` {0..<257})"
    by (simp add: code_max_def)
  show ?thesis by (rule combine_code_exhaustion_fails [OF h1 h2 h3 h4])
qed

text \<open>
  C8 (density). For arrays of length \<open>n\<close>, \<open>create_factor\<close> and \<open>combine_to_factor\<close> return a
  table when the number of distinct values (combinations) is representable in \<open>Code_\<close>, and
  then every index below the length of the table is the code of some observation;
  otherwise they fail with an overflow and return no table.
\<close>

theorem observed_codes_dense:
  fixes codes ccodes :: "'c::len word list"
    and input :: "('a::linorder) list" and inputs :: "('b::linorder) list list"
  shows "(length input = n \<and> length codes = n \<and> n \<le> size_max \<longrightarrow>
          (if card (set input) \<le> code_max TYPE('c) sg
           then \<exists>codes' levels. create_factor sg n input codes = (codes', Inr levels)
                  \<and> (\<forall>u<length levels. \<exists>i<n. unat (codes' ! i) = u)
           else snd (create_factor sg n input codes) = Inl Overflow))
       \<and> (length inputs \<le> size_max \<and> m \<le> size_max \<and> length ccodes = m
            \<and> (\<forall>col \<in> set inputs. length col = m) \<longrightarrow>
          (if inputs = [] \<or> card (observation inputs ` {0..<m}) \<le> code_max TYPE('c) sg
           then \<exists>codes' table. combine_to_factor sg m inputs ccodes = (codes', Inr table)
                  \<and> (\<forall>col \<in> set table. length col = length (table_rows table))
                  \<and> (\<forall>u<length (table_rows table). \<exists>i<m. unat (codes' ! i) = u)
           else snd (combine_to_factor sg m inputs ccodes) = Inl Overflow))"
proof -
  have p1: "length input = n \<and> length codes = n \<and> n \<le> size_max \<longrightarrow>
          (if card (set input) \<le> code_max TYPE('c) sg
           then \<exists>codes' levels. create_factor sg n input codes = (codes', Inr levels)
                  \<and> (\<forall>u<length levels. \<exists>i<n. unat (codes' ! i) = u)
           else snd (create_factor sg n input codes) = Inl Overflow)"
  proof (intro impI, elim conjE)
    assume a: "length input = n" "length codes = n" "n \<le> size_max"
    show "if card (set input) \<le> code_max TYPE('c) sg
          then \<exists>codes' levels. create_factor sg n input codes = (codes', Inr levels)
                 \<and> (\<forall>u<length levels. \<exists>i<n. unat (codes' ! i) = u)
          else snd (create_factor sg n input codes) = Inl Overflow"
    proof (cases "card (set input) \<le> code_max TYPE('c) sg")
      case True
      have "\<exists>codes' levels. create_factor sg n input codes = (codes', Inr levels)
              \<and> (\<forall>u<length levels. \<exists>i<n. unat (codes' ! i) = u)"
        using a True by (rule create_factor_density)
      then show ?thesis using True by (simp only: if_True)
    next
      case False
      then have "code_max TYPE('c) sg < card (set input)" by simp
      then have "snd (create_factor sg n input codes) = Inl Overflow"
        using a(1,2) by (intro create_factor_overflow)
      then show ?thesis using False by (simp only: if_False)
    qed
  qed
  have p2: "length inputs \<le> size_max \<and> m \<le> size_max \<and> length ccodes = m
            \<and> (\<forall>col \<in> set inputs. length col = m) \<longrightarrow>
          (if inputs = [] \<or> card (observation inputs ` {0..<m}) \<le> code_max TYPE('c) sg
           then \<exists>codes' table. combine_to_factor sg m inputs ccodes = (codes', Inr table)
                  \<and> (\<forall>col \<in> set table. length col = length (table_rows table))
                  \<and> (\<forall>u<length (table_rows table). \<exists>i<m. unat (codes' ! i) = u)
           else snd (combine_to_factor sg m inputs ccodes) = Inl Overflow)"
  proof (intro impI, elim conjE)
    assume a: "length inputs \<le> size_max" "m \<le> size_max" "length ccodes = m"
      "\<forall>col \<in> set inputs. length col = m"
    show "if inputs = [] \<or> card (observation inputs ` {0..<m}) \<le> code_max TYPE('c) sg
          then \<exists>codes' table. combine_to_factor sg m inputs ccodes = (codes', Inr table)
                 \<and> (\<forall>col \<in> set table. length col = length (table_rows table))
                 \<and> (\<forall>u<length (table_rows table). \<exists>i<m. unat (codes' ! i) = u)
          else snd (combine_to_factor sg m inputs ccodes) = Inl Overflow"
    proof (cases "inputs = [] \<or> card (observation inputs ` {0..<m}) \<le> code_max TYPE('c) sg")
      case True
      have "\<exists>codes' table. combine_to_factor sg m inputs ccodes = (codes', Inr table)
              \<and> (\<forall>col \<in> set table. length col = length (table_rows table))
              \<and> (\<forall>u<length (table_rows table). \<exists>i<m. unat (codes' ! i) = u)"
        using combine_result_all [OF a True] by blast
      then show ?thesis using True by (simp only: if_True)
    next
      case False
      then have "inputs \<noteq> []"
        "code_max TYPE('c) sg < card (observation inputs ` {0..<m})" by simp_all
      then have "snd (combine_to_factor sg m inputs ccodes) = Inl Overflow"
        using a(1,3,4) by (intro combine_overflow_all)
      then show ?thesis using False by (simp only: if_False)
    qed
  qed
  show ?thesis by (rule conjI [OF p1 p2])
qed

text \<open>Scenarios B and A of the specification.\<close>

theorem observed_codes_dense_witness:
  "(\<exists>i. unat ([0, 2, 1, 0 :: 8 word] ! i) = 0) \<and> (\<exists>i. unat ([0, 2, 1, 0 :: 8 word] ! i) = 1)
   \<and> (\<exists>i. unat ([0, 2, 1, 0 :: 8 word] ! i) = 2)
   \<and> create_factor False 4 [10, 30, 20, 10 :: nat] [0, 0, 0, 0 :: 8 word]
       = ([0, 2, 1, 0], Inr [10, 20, 30])
   \<and> (\<exists>i. unat ([1, 0, 2, 3 :: 8 word] ! i) = 0) \<and> (\<exists>i. unat ([1, 0, 2, 3 :: 8 word] ! i) = 1)
   \<and> (\<exists>i. unat ([1, 0, 2, 3 :: 8 word] ! i) = 2) \<and> (\<exists>i. unat ([1, 0, 2, 3 :: 8 word] ! i) = 3)
   \<and> combine_to_factor False 4 [[2, 1, 2, 3 :: nat], [1, 1, 2, 1]] [0, 0, 0, 0 :: 8 word]
       = ([1, 0, 2, 3], Inr [[1, 2, 2, 3], [1, 1, 2, 1]])"
proof -
  let ?input = "[10, 30, 20, 10] :: nat list"
  let ?inputs = "[[2, 1, 2, 3], [1, 1, 2, 1]] :: nat list list"
  let ?c4 = "[0, 0, 0, 0] :: 8 word list"
  have h1: "length ?input = 4 \<and> length ?c4 = 4 \<and> 4 \<le> size_max"
    by (simp add: size_max_def)
  have "card (set ?input) \<le> length ?input" by (rule card_length)
  then have c1: "card (set ?input) \<le> code_max TYPE(8) False"
    by (simp add: code_max_def)
  have h2: "length ?inputs \<le> size_max \<and> 4 \<le> size_max \<and> length ?c4 = 4
            \<and> (\<forall>col \<in> set ?inputs. length col = 4)"
    by (simp add: size_max_def)
  have "card (observation ?inputs ` {0..<4}) \<le> card {0..<4::nat}"
    by (intro card_image_le) simp
  then have c2: "?inputs = [] \<or> card (observation ?inputs ` {0..<4}) \<le> code_max TYPE(8) False"
    by (simp add: code_max_def)
  note r = observed_codes_dense [of ?input 4 ?c4 False ?inputs 4 ?c4]
  have "\<exists>codes' levels. create_factor False 4 ?input ?c4 = (codes', Inr levels)
          \<and> (\<forall>u<length levels. \<exists>i<4. unat (codes' ! i) = u)"
    using mp [OF conjunct1 [OF r] h1] c1 by (simp only: if_True)
  then have d1: "\<forall>u<length [10, 20, 30 :: nat]. \<exists>i<4. unat ([0, 2, 1, 0 :: 8 word] ! i) = u"
    by (simp add: scenario_B)
  have tr: "length (table_rows (col # cols)) = length col" for col :: "nat list" and cols
    by (simp add: table_rows_def)
  have "\<exists>codes' table. combine_to_factor False 4 ?inputs ?c4 = (codes', Inr table)
          \<and> (\<forall>col \<in> set table. length col = length (table_rows table))
          \<and> (\<forall>u<length (table_rows table). \<exists>i<4. unat (codes' ! i) = u)"
    using mp [OF conjunct2 [OF r] h2] c2 by (simp only: if_True)
  then have d2: "\<forall>u<4. \<exists>i<4. unat ([1, 0, 2, 3 :: 8 word] ! i) = u"
    unfolding scenario_A by (simp add: tr)
  show ?thesis
    using d1 [rule_format, of 0] d1 [rule_format, of 1] d1 [rule_format, of 2]
      d2 [rule_format, of 0] d2 [rule_format, of 1] d2 [rule_format, of 2]
      d2 [rule_format, of 3] scenario_A scenario_B
    by (simp only: length_Cons list.size) auto
qed

text \<open>
  C9 (one variable), amended. \<open>combine_to_factor\<close> on one variable returns the codes of
  \<open>create_factor\<close> and its levels as the only column, or its failure, for every input.
  \<open>combine_to_factor_unused\<close> on one variable of cardinality \<open>c\<close> returns the levels
  \<open>0..c-1\<close> and the raw values copied into \<open>codes\<close> when \<open>c\<close> is representable in \<open>Code_\<close>
  and in \<open>std::size_t\<close> and at most \<open>max_size\<close>, and the levels below \<open>c\<close> are representable
  in \<open>Input_\<close>; the copy converts to \<open>Code_\<close> and keeps every raw value that is representable
  in \<open>Code_\<close>.
\<close>

theorem single_variable:
  fixes codes :: "'c::len word list" and ucodes :: "'d::len word list"
    and x :: "('a::linorder) list" and vals :: "'i::len word list"
  shows "combine_to_factor sg n [x] codes
         = (case create_factor sg n x codes of
              (codes', Inl e) \<Rightarrow> (codes', Inl e)
            | (codes', Inr levels) \<Rightarrow> (codes', Inr [levels]))
       \<and> (c < 2 ^ LENGTH('d) \<and> c \<le> 2 ^ LENGTH('i) \<and> c \<le> size_max \<and> c \<le> max_size \<longrightarrow>
            combine_to_factor_unused max_size l [(vals, c)] ucodes
            = (copy_n vals l ucodes, Inr [map of_nat [0..<c]])
            \<and> map unat (map of_nat [0..<c] :: 'i word list) = [0..<c])
       \<and> (length vals = l \<and> length ucodes = l \<and> (\<forall>i<l. unat (vals ! i) < 2 ^ LENGTH('d)) \<longrightarrow>
            map unat (copy_n vals l ucodes) = map unat vals)"
proof -
  have p1: "combine_to_factor sg n [x] codes
            = (case create_factor sg n x codes of
                 (codes', Inl e) \<Rightarrow> (codes', Inl e)
               | (codes', Inr levels) \<Rightarrow> (codes', Inr [levels]))"
    by (rule combine_single)
  have p2: "c < 2 ^ LENGTH('d) \<and> c \<le> 2 ^ LENGTH('i) \<and> c \<le> size_max \<and> c \<le> max_size \<longrightarrow>
            combine_to_factor_unused max_size l [(vals, c)] ucodes
            = (copy_n vals l ucodes, Inr [map of_nat [0..<c]])
            \<and> map unat (map of_nat [0..<c] :: 'i word list) = [0..<c]"
  proof (intro impI, elim conjE)
    assume a: "c < 2 ^ LENGTH('d)" "c \<le> 2 ^ LENGTH('i)" "c \<le> size_max" "c \<le> max_size"
    have "unat (0::'d word) + c \<le> 2 ^ LENGTH('d)" using a(1) by simp
    then have "iota c (0::'d word)
               = (map of_nat [unat (0::'d word)..<unat (0::'d word) + c] :: 'i word list)"
      by (rule iota_upt)
    moreover have "(1::nat) \<le> size_max" by (simp add: size_max_def)
    ultimately have "combine_to_factor_unused max_size l [(vals, c)] ucodes
                     = (copy_n vals l ucodes, Inr [map of_nat [0..<c]])"
      using a(3,4) by (simp add: combine_to_factor_unused_def as_size_type_ok)
    moreover have "map unat (map of_nat [0..<c] :: 'i word list) = [0..<c]"
      using a(2) by (rule unat_of_nat_upt)
    ultimately show "combine_to_factor_unused max_size l [(vals, c)] ucodes
                     = (copy_n vals l ucodes, Inr [map of_nat [0..<c]])
                     \<and> map unat (map of_nat [0..<c] :: 'i word list) = [0..<c]"
      by (rule conjI)
  qed
  have p3: "length vals = l \<and> length ucodes = l \<and> (\<forall>i<l. unat (vals ! i) < 2 ^ LENGTH('d)) \<longrightarrow>
            map unat (copy_n vals l ucodes :: 'd word list) = map unat vals"
  proof
    assume a: "length vals = l \<and> length ucodes = l \<and> (\<forall>i<l. unat (vals ! i) < 2 ^ LENGTH('d))"
    then have "copy_n vals l ucodes = map (\<lambda>v. of_nat (unat v)) vals"
      by (simp add: copy_n_full)
    moreover have "map unat (map (\<lambda>v. of_nat (unat v)) vals :: 'd word list) = map unat vals"
      unfolding map_map
    proof (rule map_cong [OF refl])
      fix v assume "v \<in> set vals"
      then obtain i where "i < l" "vals ! i = v" using a by (auto simp: in_set_conv_nth)
      then have "unat v < 2 ^ LENGTH('d)" using a by auto
      then show "(unat \<circ> (\<lambda>v. of_nat (unat v) :: 'd word)) v = unat v"
        unfolding comp_def by (rule unat_of_nat_small)
    qed
    ultimately show "map unat (copy_n vals l ucodes :: 'd word list) = map unat vals" by simp
  qed
  show ?thesis by (rule conjI [OF p1 conjI [OF p2 p3]])
qed

theorem single_variable_witness:
  "combine_to_factor False 4 [[10, 30, 20, 10 :: nat]] [0, 0, 0, 0 :: 8 word]
     = (case create_factor False 4 [10, 30, 20, 10 :: nat] [0, 0, 0, 0 :: 8 word] of
          (codes', Inl e) \<Rightarrow> (codes', Inl e)
        | (codes', Inr levels) \<Rightarrow> (codes', Inr [levels]))
   \<and> combine_to_factor_unused size_max 3 [([2, 0, 1 :: 8 word], 3)] [0, 0, 0 :: 8 word]
     = (copy_n [2, 0, 1 :: 8 word] 3 [0, 0, 0 :: 8 word], Inr [map of_nat [0..<3]])
   \<and> map unat (map of_nat [0..<3] :: 8 word list) = [0..<3]
   \<and> map unat (copy_n [2, 0, 1 :: 8 word] 3 [0, 0, 0 :: 8 word]) = map unat [2, 0, 1 :: 8 word]"
proof -
  let ?vals = "[2, 0, 1] :: 8 word list"
  let ?c3 = "[0, 0, 0] :: 8 word list"
  have h2: "(3::nat) < 2 ^ LENGTH(8) \<and> (3::nat) \<le> 2 ^ LENGTH(8) \<and> 3 \<le> size_max
            \<and> 3 \<le> size_max"
    by (simp add: size_max_def)
  have h3: "length ?vals = 3 \<and> length ?c3 = 3 \<and> (\<forall>i<3. unat (?vals ! i) < 2 ^ LENGTH(8))"
    by (simp add: numeral_3_eq_3 All_less_Suc)
  note r = single_variable [of False 4 "[10, 30, 20, 10] :: nat list" "[0, 0, 0, 0] :: 8 word list"
      3 size_max 3 ?vals ?c3]
  note a2 = mp [OF conjunct1 [OF conjunct2 [OF r]] h2]
  show ?thesis
    by (intro conjI conjunct1 [OF r] conjunct1 [OF a2] conjunct2 [OF a2]
        mp [OF conjunct2 [OF conjunct2 [OF r]] h3])
qed

text \<open>
  C9 as stated fails for a cardinality of 257 with codes of eight bits: the levels are
  \<open>0..255\<close> followed by \<open>0\<close>.
\<close>

theorem single_variable_counterexample:
  "\<exists>table. snd (combine_to_factor_unused size_max 0 [([] :: 16 word list, 257)]
                 ([] :: 8 word list)) = Inr [table]
     \<and> length table = 257 \<and> table ! 256 \<noteq> 256"
proof -
  have r: "snd (combine_to_factor_unused size_max 0 [([] :: 16 word list, 257)]
                 ([] :: 8 word list))
           = Inr [iota 257 (0 :: 8 word)]"
    by (simp add: unused_eval)
  have "(iota 257 (0 :: 8 word) :: 16 word list) ! 256 = 0" by (simp add: iota_nth)
  then show ?thesis using r by simp
qed

end
